theory Spec2Isabelle
  imports Main
begin

section \<open>Strings as the source reads and writes them\<close>

text \<open>
  A string is a list of code units; the model keeps to code units below 256. The
  functions of this section are the JavaScript built-ins the backup code calls:
  \<^verbatim>\<open>String.prototype.split\<close> with a one-character separator, \<^verbatim>\<open>parseInt\<close> with no radix,
  the decimal rendering of a non-negative integer in a template literal, and
  \<^verbatim>\<open>Array.prototype.splice(0, n)\<close>.
\<close>

type_synonym ref = string
type_synonym domain = string

fun splitStr :: "char \<Rightarrow> string \<Rightarrow> string list" where
  "splitStr c [] = [[]]"
| "splitStr c (x # xs) =
     (if x = c then [] # splitStr c xs
      else (case splitStr c xs of p # ps \<Rightarrow> (x # p) # ps | [] \<Rightarrow> [[x]]))"

definition isStrWhiteSpace :: "char \<Rightarrow> bool" where
  "isStrWhiteSpace c =
     (c = CHR 0x09 \<or> c = CHR 0x0A \<or> c = CHR 0x0B \<or> c = CHR 0x0C \<or> c = CHR 0x0D
      \<or> c = CHR 0x20 \<or> c = CHR 0xA0)"

definition digitOf :: "char \<Rightarrow> nat option" where
  "digitOf c =
     (let n = (of_char c :: nat)
      in if 48 \<le> n \<and> n \<le> 57 then Some (n - 48)
         else if 97 \<le> n \<and> n \<le> 122 then Some (n - 87)
         else if 65 \<le> n \<and> n \<le> 90 then Some (n - 55)
         else None)"

definition radixDigit :: "nat \<Rightarrow> char \<Rightarrow> nat option" where
  "radixDigit R c =
     (case digitOf c of None \<Rightarrow> None | Some d \<Rightarrow> if d < R then Some d else None)"

fun digitsPrefix :: "nat \<Rightarrow> string \<Rightarrow> nat list" where
  "digitsPrefix R [] = []"
| "digitsPrefix R (c # cs) =
     (case radixDigit R c of None \<Rightarrow> [] | Some d \<Rightarrow> d # digitsPrefix R cs)"

definition stripSign :: "string \<Rightarrow> bool \<times> string" where
  "stripSign S =
     (case S of
        [] \<Rightarrow> (False, S)
      | c # r \<Rightarrow> if c = CHR ''-'' then (True, r)
                 else if c = CHR ''+'' then (False, r)
                 else (False, S))"

definition stripPrefix :: "string \<Rightarrow> nat \<times> string" where
  "stripPrefix S =
     (case S of
        a # b # r \<Rightarrow>
          if a = CHR ''0'' \<and> (b = CHR ''x'' \<or> b = CHR ''X'') then (16, r) else (10, S)
      | _ \<Rightarrow> (10, S))"

text \<open>
  \<^verbatim>\<open>parseInt(s)\<close>: leading white space is skipped, a sign is read, a \<^verbatim>\<open>0x\<close> prefix
  selects radix 16, and the longest prefix of digits is the value. \<open>None\<close> is \<^verbatim>\<open>NaN\<close>.
  The value is an unbounded integer here; the source only passes it to \<^verbatim>\<open>splice\<close>, which
  clamps it to the length of the array.
\<close>

definition parseInt :: "string \<Rightarrow> int option" where
  "parseInt s =
     (let S = dropWhile isStrWhiteSpace s;
          (neg, S1) = stripSign S;
          (R, S2) = stripPrefix S1;
          Z = digitsPrefix R S2
      in if Z = [] then None
         else Some ((if neg then - 1 else 1) * int (foldl (\<lambda>acc d. acc * R + d) 0 Z)))"

fun showNat :: "nat \<Rightarrow> string" where
  "showNat n =
     (if n < 10 then [char_of (48 + n)]
      else showNat (n div 10) @ [char_of (48 + n mod 10)])"

declare showNat.simps [simp del]

text \<open>
  \<^verbatim>\<open>xs.splice(0, n)\<close> returns the removed prefix and leaves the rest in \<^verbatim>\<open>xs\<close>; a
  \<^verbatim>\<open>NaN\<close> or negative count removes nothing.
\<close>

definition splice0 :: "int option \<Rightarrow> 'a list \<Rightarrow> 'a list \<times> 'a list" where
  "splice0 n xs =
     (let k = (case n of None \<Rightarrow> 0 | Some i \<Rightarrow> if i < 0 then 0 else nat i)
      in (take k xs, drop k xs))"

section \<open>Backup digests: \<^verbatim>\<open>server/backup/src/backup.ts\<close>\<close>

text \<open>
  \<^verbatim>\<open>Snapshot\<close> holds two \<^verbatim>\<open>Map\<close>s and an array; a \<^verbatim>\<open>Map\<close> is kept as the list of its
  entries in insertion order, which is the order \<^verbatim>\<open>entries()\<close> yields. \<^verbatim>\<open>SnapshotV6\<close> has
  the same fields as plain objects.
\<close>

record Snapshot =
  added :: "(ref \<times> string) list"
  updated :: "(ref \<times> string) list"
  removed :: "ref list"

type_synonym SnapshotV6 = Snapshot

text \<open>
  The counters of \<^verbatim>\<open>DomainData\<close> are named \<open>addedCount\<close>, \<open>updatedCount\<close> and
  \<open>removedCount\<close> here, the list of incremental files \<open>snapshots\<close>, the legacy file
  \<open>snapshot\<close>.
\<close>

record DomainData =
  snapshot :: "string option"
  snapshots :: "string list option"
  storage :: "string list option"
  addedCount :: nat
  updatedCount :: nat
  removedCount :: nat

record BackupSnapshot =
  domains :: "domain \<rightharpoonup> DomainData"
  date :: int

text \<open>
  A value stored in the digest is what the destructuring \<^verbatim>\<open>const [k, v] = it.split(';')\<close>
  yields for \<^verbatim>\<open>v\<close>: a string, or \<^verbatim>\<open>undefined\<close> when the line has no separator.
\<close>

datatype hashval = Undefined | Hash string

type_synonym digest = "ref \<rightharpoonup> hashval"

text \<open>
  The backup storage as \<^verbatim>\<open>loadDigest\<close> reads it: \<open>textFiles\<close> gives, for a file name,
  the text \<^verbatim>\<open>gunzipSync(await storage.loadFile(name)).toString()\<close>, and \<open>jsonFiles\<close> the
  value \<^verbatim>\<open>JSON.parse\<close> makes of it; \<open>None\<close> when the expression throws.
\<close>

record BackupStorage =
  textFiles :: "string \<rightharpoonup> string"
  jsonFiles :: "string \<rightharpoonup> SnapshotV6"

datatype error = LoadFailed string

primrec setAll :: "(ref \<times> hashval) list \<Rightarrow> digest \<Rightarrow> digest" where
  "setAll [] result = result"
| "setAll (kv # rest) result = setAll rest (result(fst kv \<mapsto> snd kv))"

primrec deleteAll :: "ref list \<Rightarrow> digest \<Rightarrow> digest" where
  "deleteAll [] result = result"
| "deleteAll (k # rest) result = deleteAll rest (result(k := None))"

definition shiftCount :: "string list \<Rightarrow> int option \<times> string list" where
  "shiftCount dataBlob =
     (case dataBlob of [] \<Rightarrow> (parseInt ''0'', []) | l # ls \<Rightarrow> (parseInt l, ls))"

definition splitPair :: "string \<Rightarrow> ref \<times> hashval" where
  "splitPair it =
     (case splitStr CHR '';'' it of
        k # v # _ \<Rightarrow> (k, Hash v)
      | [k] \<Rightarrow> (k, Undefined)
      | [] \<Rightarrow> ([], Undefined))"

text \<open>
  The body of the \<^verbatim>\<open>try\<close> block of \<^verbatim>\<open>loadDigest\<close>, up to the calls of \<^verbatim>\<open>result.set\<close> and
  \<^verbatim>\<open>result.delete\<close>: the three sections of a snapshot file, read from its text.
\<close>

definition parseChanges ::
  "string \<Rightarrow> (ref \<times> hashval) list \<times> (ref \<times> hashval) list \<times> ref list" where
  "parseChanges text =
     (let dataBlob = splitStr CHR 0x0A text;
          (addedCount, dataBlob) = shiftCount dataBlob;
          (added, dataBlob) = splice0 addedCount dataBlob;
          (updatedCount, dataBlob) = shiftCount dataBlob;
          (updated, dataBlob) = splice0 updatedCount dataBlob;
          (removedCount, dataBlob) = shiftCount dataBlob;
          (removed, dataBlob) = splice0 removedCount dataBlob
      in (map splitPair added, map splitPair updated, removed))"

definition applyChanges ::
  "(ref \<times> hashval) list \<times> (ref \<times> hashval) list \<times> ref list \<Rightarrow> digest \<Rightarrow> digest" where
  "applyChanges ch result =
     (case ch of (a, u, r) \<Rightarrow> deleteAll r (setAll u (setAll a result)))"

definition hashed :: "(ref \<times> string) list \<Rightarrow> (ref \<times> hashval) list" where
  "hashed kvs = map (\<lambda>kv. (fst kv, Hash (snd kv))) kvs"

definition changesV6 ::
  "SnapshotV6 \<Rightarrow> (ref \<times> hashval) list \<times> (ref \<times> hashval) list \<times> ref list" where
  "changesV6 dChanges = (hashed (added dChanges), hashed (updated dChanges), removed dChanges)"

text \<open>
  The inner loop over \<^verbatim>\<open>d?.snapshots ?? []\<close>. A file that cannot be loaded or unzipped
  throws before \<^verbatim>\<open>result\<close> is touched; the \<^verbatim>\<open>catch\<close> logs and the loop goes on.
\<close>

fun loadSnapshotFiles :: "BackupStorage \<Rightarrow> string list \<Rightarrow> digest \<Rightarrow> digest" where
  "loadSnapshotFiles st [] result = result"
| "loadSnapshotFiles st (f # fs) result =
     loadSnapshotFiles st fs
       (case textFiles st f of
          None \<Rightarrow> result
        | Some text \<Rightarrow> applyChanges (parseChanges text) result)"

definition loadLegacy :: "BackupStorage \<Rightarrow> DomainData option \<Rightarrow> digest \<Rightarrow> error + digest" where
  "loadLegacy st d result =
     (case d of
        None \<Rightarrow> Inr result
      | Some dd \<Rightarrow>
          (case snapshot dd of
             None \<Rightarrow> Inr result
           | Some name \<Rightarrow>
               (case jsonFiles st name of
                  None \<Rightarrow> Inl (LoadFailed name)
                | Some dChanges \<Rightarrow> Inr (applyChanges (changesV6 dChanges) result))))"

definition snapshotFiles :: "DomainData option \<Rightarrow> string list" where
  "snapshotFiles d =
     (case d of None \<Rightarrow> [] | Some dd \<Rightarrow> (case snapshots dd of None \<Rightarrow> [] | Some fs \<Rightarrow> fs))"

fun loadDigestLoop ::
  "BackupStorage \<Rightarrow> BackupSnapshot list \<Rightarrow> domain \<Rightarrow> int option \<Rightarrow> digest \<Rightarrow> error + digest" where
  "loadDigestLoop st [] dmn tdate result = Inr result"
| "loadDigestLoop st (s # ss) dmn tdate result =
     (let d = domains s dmn
      in case loadLegacy st d result of
           Inl e \<Rightarrow> Inl e
         | Inr r1 \<Rightarrow>
             (let r2 = loadSnapshotFiles st (snapshotFiles d) r1
              in if tdate = Some (date s) then Inr r2
                 else loadDigestLoop st ss dmn tdate r2))"

definition loadDigest ::
  "BackupStorage \<Rightarrow> BackupSnapshot list \<Rightarrow> domain \<Rightarrow> int option \<Rightarrow> error + digest" where
  "loadDigest st snaps dmn tdate = loadDigestLoop st snaps dmn tdate Map.empty"

text \<open>
  \<^verbatim>\<open>writeChanges\<close>: the text written to the gzip stream, one \<^verbatim>\<open>write\<close> after the other.
\<close>

definition pairLine :: "ref \<times> string \<Rightarrow> string" where
  "pairLine kv = fst kv @ '';'' @ snd kv @ [CHR 0x0A]"

definition idLine :: "ref \<Rightarrow> string" where
  "idLine k = k @ [CHR 0x0A]"

definition writeChanges :: "Snapshot \<Rightarrow> string" where
  "writeChanges changes =
     showNat (length (added changes)) @ [CHR 0x0A]
     @ concat (map pairLine (added changes))
     @ showNat (length (updated changes)) @ [CHR 0x0A]
     @ concat (map pairLine (updated changes))
     @ showNat (length (removed changes)) @ [CHR 0x0A]
     @ concat (map idLine (removed changes))"

subsection \<open>The fold the digest is specified by\<close>

text \<open>
  The change sets a backup snapshot holds for a domain, in the order they were written:
  the legacy snapshot, then each incremental file that can be read.
\<close>

definition changesOf ::
  "BackupStorage \<Rightarrow> domain \<Rightarrow> BackupSnapshot
     \<Rightarrow> ((ref \<times> hashval) list \<times> (ref \<times> hashval) list \<times> ref list) list" where
  "changesOf st dmn s =
     (case domains s dmn of
        None \<Rightarrow> []
      | Some dd \<Rightarrow>
          (case snapshot dd of
             None \<Rightarrow> []
           | Some name \<Rightarrow> (case jsonFiles st name of None \<Rightarrow> [] | Some c \<Rightarrow> [changesV6 c]))
          @ concat (map (\<lambda>f. case textFiles st f of None \<Rightarrow> [] | Some t \<Rightarrow> [parseChanges t])
                        (case snapshots dd of None \<Rightarrow> [] | Some fs \<Rightarrow> fs)))"

text \<open>The snapshots up to and including the first one whose date is the target date.\<close>

fun uptoDate :: "int option \<Rightarrow> BackupSnapshot list \<Rightarrow> BackupSnapshot list" where
  "uptoDate tdate [] = []"
| "uptoDate tdate (s # ss) = (if tdate = Some (date s) then [s] else s # uptoDate tdate ss)"

text \<open>
  One change set applied to a digest: the added entries, overridden by the updated
  entries, with the removed ids taken out. Within a list a later entry for an id wins.
\<close>

definition foldChange ::
  "digest \<Rightarrow> (ref \<times> hashval) list \<times> (ref \<times> hashval) list \<times> ref list \<Rightarrow> digest" where
  "foldChange m ch =
     (case ch of (a, u, r) \<Rightarrow> (\<lambda>k. if k \<in> set r then None else (m ++ map_of (rev a) ++ map_of (rev u)) k))"

definition legacyLoads :: "BackupStorage \<Rightarrow> domain \<Rightarrow> BackupSnapshot \<Rightarrow> bool" where
  "legacyLoads st dmn s =
     (case domains s dmn of
        None \<Rightarrow> True
      | Some dd \<Rightarrow> (case snapshot dd of None \<Rightarrow> True | Some name \<Rightarrow> jsonFiles st name \<noteq> None))"

text \<open>
  What a change set must satisfy for the line format to hold it: no id or hash of an
  added or updated entry contains a line feed or a semicolon, and no removed id contains
  a line feed.
\<close>

definition lineSafe :: "string \<Rightarrow> bool" where
  "lineSafe s = (CHR 0x0A \<notin> set s)"

definition fieldSafe :: "string \<Rightarrow> bool" where
  "fieldSafe s = (CHR 0x0A \<notin> set s \<and> CHR '';'' \<notin> set s)"

definition encodable :: "Snapshot \<Rightarrow> bool" where
  "encodable changes =
     (list_all (\<lambda>kv. fieldSafe (fst kv) \<and> fieldSafe (snd kv)) (added changes)
      \<and> list_all (\<lambda>kv. fieldSafe (fst kv) \<and> fieldSafe (snd kv)) (updated changes)
      \<and> list_all lineSafe (removed changes))"

definition pairBody :: "ref \<times> string \<Rightarrow> string" where
  "pairBody kv = fst kv @ '';'' @ snd kv"

subsection \<open>The digest by the words of the specification\<close>

text \<open>
  The digest the specification describes, on the change sets themselves and with no
  file read: a change set applied to a map from id to content hash gives the map with
  the added entries put in, then the updated entries, and the removed ids taken out.
\<close>

definition specApply :: "(ref \<rightharpoonup> string) \<Rightarrow> Snapshot \<Rightarrow> (ref \<rightharpoonup> string)" where
  "specApply m c =
     (\<lambda>k. if k \<in> set (removed c) then None
          else (case map_of (rev (updated c)) k of
                  Some h \<Rightarrow> Some h
                | None \<Rightarrow> (case map_of (rev (added c)) k of Some h \<Rightarrow> Some h | None \<Rightarrow> m k)))"

text \<open>
  \<open>written\<close> gives, for the name of an incremental file, the change set that
  \<^verbatim>\<open>writeChanges\<close> was called with for it, for the files that can be read. The storage
  holds these change sets when each incremental file of the snapshot either cannot be
  read and has none, or has the text \<^verbatim>\<open>writeChanges\<close> produces for its change set.
\<close>

definition holdsWritten ::
  "BackupStorage \<Rightarrow> (string \<rightharpoonup> Snapshot) \<Rightarrow> domain \<Rightarrow> BackupSnapshot \<Rightarrow> bool" where
  "holdsWritten st written dmn s =
     list_all
       (\<lambda>f. case written f of
               None \<Rightarrow> textFiles st f = None
             | Some c \<Rightarrow> encodable c \<and> textFiles st f = Some (writeChanges c))
       (snapshotFiles (domains s dmn))"

text \<open>
  The change sets of a snapshot for a domain, in chronological order: the one of the
  legacy file, then the ones written to the incremental files.
\<close>

definition writtenChanges ::
  "BackupStorage \<Rightarrow> (string \<rightharpoonup> Snapshot) \<Rightarrow> domain \<Rightarrow> BackupSnapshot \<Rightarrow> Snapshot list" where
  "writtenChanges st written dmn s =
     (case domains s dmn of
        None \<Rightarrow> []
      | Some dd \<Rightarrow>
          (case snapshot dd of
             None \<Rightarrow> []
           | Some name \<Rightarrow> (case jsonFiles st name of None \<Rightarrow> [] | Some c \<Rightarrow> [c]))
          @ concat (map (\<lambda>f. case written f of None \<Rightarrow> [] | Some c \<Rightarrow> [c])
                        (case snapshots dd of None \<Rightarrow> [] | Some fs \<Rightarrow> fs)))"

definition specDigest ::
  "BackupStorage \<Rightarrow> (string \<rightharpoonup> Snapshot) \<Rightarrow> BackupSnapshot list \<Rightarrow> domain \<Rightarrow> int option
     \<Rightarrow> (ref \<rightharpoonup> string)" where
  "specDigest st written snaps dmn tdate =
     foldl specApply Map.empty (concat (map (writtenChanges st written dmn) (uptoDate tdate snaps)))"

text \<open>A small backup: two snapshots of the domain \<open>tx\<close>, the second one dated 20.\<close>

definition exStorage :: BackupStorage where
  "exStorage =
     \<lparr>textFiles =
        [''f1'' \<mapsto> ''2'' @ [CHR 0x0A] @ ''a;h1'' @ [CHR 0x0A] @ ''b;h2'' @ [CHR 0x0A]
                    @ ''0'' @ [CHR 0x0A] @ ''0'' @ [CHR 0x0A],
         ''f2'' \<mapsto> ''0'' @ [CHR 0x0A] @ ''1'' @ [CHR 0x0A] @ ''a;h3'' @ [CHR 0x0A]
                    @ ''1'' @ [CHR 0x0A] @ ''b'' @ [CHR 0x0A]],
      jsonFiles = [''old'' \<mapsto> \<lparr>added = [(''z'', ''h0'')], updated = [], removed = []\<rparr>]\<rparr>"

definition exChain :: "BackupSnapshot list" where
  "exChain =
     [\<lparr>domains = [''tx'' \<mapsto> \<lparr>snapshot = Some ''old'', snapshots = Some [''f1''],
                                storage = None, addedCount = 3, updatedCount = 0,
                                removedCount = 0\<rparr>],
       date = 10\<rparr>,
      \<lparr>domains = [''tx'' \<mapsto> \<lparr>snapshot = None, snapshots = Some [''f2''],
                                storage = None, addedCount = 0, updatedCount = 1,
                                removedCount = 1\<rparr>],
       date = 20\<rparr>,
      \<lparr>domains = [''tx'' \<mapsto> \<lparr>snapshot = Some ''lost'', snapshots = None,
                                storage = None, addedCount = 0, updatedCount = 0,
                                removedCount = 0\<rparr>],
       date = 30\<rparr>]"

text \<open>A change set the line format can hold.\<close>

definition exChanges :: Snapshot where
  "exChanges = \<lparr>added = [(''a'', ''h1''), (''b'', ''h2'')], updated = [(''c'', ''h3'')],
                removed = [''x;1'', ''y'']\<rparr>"

text \<open>The change sets the two incremental files of the small backup were written from.\<close>

definition exWritten :: "string \<rightharpoonup> Snapshot" where
  "exWritten =
     [''f1'' \<mapsto> \<lparr>added = [(''a'', ''h1''), (''b'', ''h2'')], updated = [], removed = []\<rparr>,
      ''f2'' \<mapsto> \<lparr>added = [], updated = [(''a'', ''h3'')], removed = [''b'']\<rparr>]"

section \<open>Chunk cursors: \<^verbatim>\<open>server/core/src/storage.ts\<close>\<close>

text \<open>
  A \<^verbatim>\<open>StorageIterator\<close> is the cursor \<^verbatim>\<open>pipeline.storage.find\<close> opens over the documents
  of a domain. It is kept as the list of the documents it has still to yield, with the
  number of \<^verbatim>\<open>next\<close> calls made on it: \<^verbatim>\<open>next\<close> yields the head, or \<^verbatim>\<open>undefined\<close> once the
  list is empty. The documents of a domain are finitely many. The type \<open>'d\<close> is
  \<^verbatim>\<open>DocInfo\<close>; \<^verbatim>\<open>estimateDocSize\<close> and \<^verbatim>\<open>find\<close> are parameters of the model.
\<close>

record 'd StorageIterator =
  remaining :: "'d list"
  nextCalls :: nat

record 'd ChunkInfo =
  idx :: int
  index :: nat
  finished :: bool
  iterator :: "'d StorageIterator"

record 'd BackupClientOps =
  idIndex :: int
  chunkInfo :: "int \<rightharpoonup> 'd ChunkInfo"

text \<open>The value \<^verbatim>\<open>loadChunk\<close> resolves to: \<^verbatim>\<open>{ idx, docs, finished }\<close>.\<close>

record 'd LoadChunkResult =
  resIdx :: int
  docs :: "'d list"
  resFinished :: bool

definition chunkSize :: nat where
  "chunkSize = 2 * 1024 * 1024"

text \<open>
  The \<^verbatim>\<open>while (size < chunkSize)\<close> loop: the size so far, the documents pushed so far,
  the documents the iterator has left and its count of \<^verbatim>\<open>next\<close> calls. It returns the
  documents, whether the iterator ran out (\<^verbatim>\<open>chunk.finished = true\<close>) and the iterator.
\<close>

fun fillChunk ::
  "('d \<Rightarrow> nat) \<Rightarrow> nat \<Rightarrow> 'd list \<Rightarrow> 'd list \<Rightarrow> nat \<Rightarrow> 'd list \<times> bool \<times> 'd StorageIterator" where
  "fillChunk estimateDocSize sz ds [] n =
     (if sz < chunkSize then (ds, True, \<lparr>remaining = [], nextCalls = n + 1\<rparr>)
      else (ds, False, \<lparr>remaining = [], nextCalls = n\<rparr>))"
| "fillChunk estimateDocSize sz ds (doc # rest) n =
     (if sz < chunkSize
      then fillChunk estimateDocSize (sz + estimateDocSize doc) (ds @ [doc]) rest (n + 1)
      else (ds, False, \<lparr>remaining = doc # rest, nextCalls = n\<rparr>))"

definition readChunk ::
  "('d \<Rightarrow> nat) \<Rightarrow> 'd BackupClientOps \<Rightarrow> int \<Rightarrow> 'd ChunkInfo
     \<Rightarrow> 'd BackupClientOps \<times> 'd LoadChunkResult" where
  "readChunk estimateDocSize ops i chunk =
     (case fillChunk estimateDocSize 0 [] (remaining (iterator chunk)) (nextCalls (iterator chunk)) of
        (ds, ranOut, it) \<Rightarrow>
          (let chunk' = chunk\<lparr>finished := (if ranOut then True else finished chunk),
                                iterator := it\<rparr>
           in (ops\<lparr>chunkInfo := (chunkInfo ops)(i \<mapsto> chunk')\<rparr>,
               \<lparr>resIdx = i, docs = ds, resFinished = finished chunk'\<rparr>)))"

definition loadChunk ::
  "(domain \<Rightarrow> bool option \<Rightarrow> 'd list) \<Rightarrow> ('d \<Rightarrow> nat) \<Rightarrow> 'd BackupClientOps
     \<Rightarrow> domain \<Rightarrow> int option \<Rightarrow> bool option
     \<Rightarrow> 'd BackupClientOps \<times> 'd LoadChunkResult" where
  "loadChunk storageFind estimateDocSize ops dmn idxArg recheck =
     (let (i, ops1) =
            (case idxArg of
               Some i \<Rightarrow> (i, ops)
             | None \<Rightarrow> (idIndex ops, ops\<lparr>idIndex := idIndex ops + 1\<rparr>))
      in case chunkInfo ops1 i of
           Some chunk \<Rightarrow>
             (let chunk1 = chunk\<lparr>index := index chunk + 1\<rparr>
              in if finished chunk1
                 then (ops1\<lparr>chunkInfo := (chunkInfo ops1)(i \<mapsto> chunk1)\<rparr>,
                       \<lparr>resIdx = i, docs = [], resFinished = True\<rparr>)
                 else readChunk estimateDocSize ops1 i chunk1)
         | None \<Rightarrow>
             readChunk estimateDocSize ops1 i
               \<lparr>idx = i, index = 0, finished = False,
                iterator = \<lparr>remaining = storageFind dmn recheck, nextCalls = 0\<rparr>\<rparr>)"

text \<open>A client that calls \<^verbatim>\<open>loadChunk\<close> \<open>n\<close> times with the same \<open>idx\<close>.\<close>

fun loadChunkRepeat ::
  "nat \<Rightarrow> (domain \<Rightarrow> bool option \<Rightarrow> 'd list) \<Rightarrow> ('d \<Rightarrow> nat) \<Rightarrow> 'd BackupClientOps
     \<Rightarrow> domain \<Rightarrow> int \<Rightarrow> bool option
     \<Rightarrow> 'd BackupClientOps \<times> 'd LoadChunkResult list" where
  "loadChunkRepeat 0 storageFind est ops dmn i recheck = (ops, [])"
| "loadChunkRepeat (Suc n) storageFind est ops dmn i recheck =
     (case loadChunk storageFind est ops dmn (Some i) recheck of
        (ops1, r) \<Rightarrow>
          (case loadChunkRepeat n storageFind est ops1 dmn i recheck of
             (ops2, rs) \<Rightarrow> (ops2, r # rs)))"

text \<open>
  The documents the cursor \<open>i\<close> has still to deliver: those of the domain when the
  cursor is not open yet, none when it has finished.
\<close>

definition pending ::
  "(domain \<Rightarrow> bool option \<Rightarrow> 'd list) \<Rightarrow> 'd BackupClientOps \<Rightarrow> domain \<Rightarrow> int \<Rightarrow> bool option
     \<Rightarrow> 'd list" where
  "pending storageFind ops dmn i recheck =
     (case chunkInfo ops i of
        None \<Rightarrow> storageFind dmn recheck
      | Some chunk \<Rightarrow> if finished chunk then [] else remaining (iterator chunk))"

definition exOps :: "nat BackupClientOps" where
  "exOps = \<lparr>idIndex = 1,
            chunkInfo = [0 \<mapsto> \<lparr>idx = 0, index = 2, finished = True,
                                 iterator = \<lparr>remaining = [], nextCalls = 4\<rparr>\<rparr>]\<rparr>"

section \<open>Chunked responses: \<^verbatim>\<open>server/ws/src/utils.ts\<close>\<close>

text \<open>
  The \<^verbatim>\<open>result\<close> of a response is an array, with the properties \<^verbatim>\<open>total\<close> and
  \<^verbatim>\<open>lookupMap\<close> it may carry, or some other value. The types \<open>'a\<close>, \<open>'l\<close> and \<open>'v\<close> are
  those of the items, of a lookup map and of the other values.
\<close>

datatype ('a, 'l, 'v) ResultValue =
  ArrayResult "'a list" "int option" "'l option"
| OtherResult 'v

record ('a, 'l) FindResult =
  items :: "'a list"
  total :: int
  lookupMap :: "'l option"

text \<open>
  \<^verbatim>\<open>toFindResult\<close> of \<^verbatim>\<open>@hcengineering/core\<close> is not among the sources at hand. It returns
  the array it is given with the properties \<^verbatim>\<open>total\<close> and \<^verbatim>\<open>lookupMap\<close> set; what it sets
  them to is the parameter \<open>meta\<close>.
\<close>

definition toFindResult :: "('a list \<Rightarrow> int \<times> 'l option) \<Rightarrow> 'a list \<Rightarrow> ('a, 'l) FindResult" where
  "toFindResult meta ds = \<lparr>items = ds, total = fst (meta ds), lookupMap = snd (meta ds)\<rparr>"

text \<open>
  A frame on the socket: \<^verbatim>\<open>{ ...msg, result: chunk, chunk: { index, final } }\<close>. The other
  fields of \<^verbatim>\<open>msg\<close> are copied as they are and left out.
\<close>

record ('a, 'l) Frame =
  frameResult :: "('a, 'l) FindResult"
  frameIndex :: nat
  frameFinal :: bool

datatype ('a, 'l, 'v) Sent =
  Chunk "('a, 'l) Frame"
| Whole "('a, 'l, 'v) ResultValue"

text \<open>
  \<^verbatim>\<open>Math.round(p / q)\<close> for non-negative integers \<open>p\<close> and \<open>q > 0\<close>: the nearest
  integer, a half rounded up.
\<close>

definition mathRound :: "nat \<Rightarrow> nat \<Rightarrow> nat" where
  "mathRound p q = (2 * p + q) div (2 * q)"

text \<open>
  \<^verbatim>\<open>JSON.stringify(data).length\<close> for an array: the brackets, the items and the commas
  between them; \<open>jsonSize\<close> gives the length of the text of an item.
\<close>

definition dataSize :: "('a \<Rightarrow> nat) \<Rightarrow> 'a list \<Rightarrow> nat" where
  "dataSize jsonSize data = 2 + sum_list (map jsonSize data) + (length data - 1)"

text \<open>
  The \<^verbatim>\<open>while (data.length > 0 && !ws.isClosed)\<close> loop. \<open>isClosed cid\<close> is what
  \<^verbatim>\<open>ws.isClosed\<close> reads when the frame \<open>cid\<close> is about to be sent; \<open>rounded\<close> is
  \<^verbatim>\<open>Math.round(chunkLimit / avg)\<close>, so that \<^verbatim>\<open>itemChunk\<close> is \<open>rounded + 1\<close>.
\<close>

function sendChunks ::
  "(nat \<Rightarrow> bool) \<Rightarrow> ('a list \<Rightarrow> int \<times> 'l option) \<Rightarrow> int option \<Rightarrow> 'l option
     \<Rightarrow> nat \<Rightarrow> nat \<Rightarrow> 'a list \<Rightarrow> ('a, 'l) Frame list" where
  "sendChunks isClosed meta origTotal origLookup rounded cid data =
     (if data \<noteq> [] \<and> \<not> isClosed cid
      then (let itemChunk = rounded + 1;
                itemChunkCurrent =
                  (if 2 * (int (length data) - int itemChunk) < int itemChunk
                   then length data else itemChunk);
                part = take itemChunkCurrent data;
                rest = drop itemChunkCurrent data;
                chunk = toFindResult meta part;
                chunk' = (if rest = []
                          then chunk\<lparr>total := (case origTotal of None \<Rightarrow> 0 | Some t \<Rightarrow> t),
                                      lookupMap := origLookup\<rparr>
                          else chunk)
            in \<lparr>frameResult = chunk', frameIndex = cid, frameFinal = (rest = [])\<rparr>
               # sendChunks isClosed meta origTotal origLookup rounded (cid + 1) rest)
      else [])"
  by pat_completeness auto
termination
  by (relation "measure (\<lambda>(isClosed, meta, origTotal, origLookup, rounded, cid, data). length data)")
     (auto split: if_splits)

declare sendChunks.simps [simp del]

definition itemChunkOf :: "('a \<Rightarrow> nat) \<Rightarrow> 'a list \<Rightarrow> nat \<Rightarrow> nat" where
  "itemChunkOf jsonSize data chunkLimit =
     (let avg = mathRound (dataSize jsonSize data) (length data)
      in mathRound chunkLimit avg + 1)"

definition handleSend ::
  "(nat \<Rightarrow> bool) \<Rightarrow> ('a list \<Rightarrow> int \<times> 'l option) \<Rightarrow> ('a \<Rightarrow> nat)
     \<Rightarrow> ('a, 'l, 'v) ResultValue \<Rightarrow> nat \<Rightarrow> ('a, 'l, 'v) Sent list" where
  "handleSend isClosed meta jsonSize result chunkLimit =
     (case result of
        ArrayResult data origTotal origLookup \<Rightarrow>
          if length data > 1 \<and> chunkLimit > 0
          then map Chunk
                 (sendChunks isClosed meta origTotal origLookup
                    (itemChunkOf jsonSize data chunkLimit - 1) 1 data)
          else [Whole result]
      | OtherResult v \<Rightarrow> [Whole result])"

text \<open>
  A socket that stays open, the metadata \<^verbatim>\<open>toFindResult\<close> sets (the length and no lookup
  map), and documents whose JSON text is 100000 characters long.
\<close>

definition staysOpen :: "nat \<Rightarrow> bool" where
  "staysOpen cid = False"

definition lengthMeta :: "nat list \<Rightarrow> int \<times> string option" where
  "lengthMeta ds = (int (length ds), None)"

definition bigDoc :: "nat \<Rightarrow> nat" where
  "bigDoc d = 100000"

definition smallDoc :: "nat \<Rightarrow> nat" where
  "smallDoc d = 8191"

text \<open>The value of \<^verbatim>\<open>itemChunkCurrent\<close> in an iteration of the loop.\<close>

definition itemChunkCurrent :: "nat \<Rightarrow> 'a list \<Rightarrow> nat" where
  "itemChunkCurrent rounded data =
     (if 2 * (int (length data) - int (rounded + 1)) < int (rounded + 1)
      then length data else rounded + 1)"

text \<open>What the frames of a chunked response satisfy, as a predicate on the list of frames.\<close>

definition wellChunked ::
  "('a list \<Rightarrow> int \<times> 'l option) \<Rightarrow> int option \<Rightarrow> 'l option \<Rightarrow> nat \<Rightarrow> nat \<Rightarrow> 'a list
     \<Rightarrow> ('a, 'l) Frame list \<Rightarrow> bool" where
  "wellChunked meta origTotal origLookup itemChunk cid data fs =
     (fs \<noteq> []
      \<and> concat (map (\<lambda>f. items (frameResult f)) fs) = data
      \<and> map frameIndex fs = [cid ..< cid + length fs]
      \<and> frameFinal (last fs)
      \<and> list_all (\<lambda>f. \<not> frameFinal f) (butlast fs)
      \<and> total (frameResult (last fs)) = (case origTotal of None \<Rightarrow> 0 | Some t \<Rightarrow> t)
      \<and> lookupMap (frameResult (last fs)) = origLookup
      \<and> list_all (\<lambda>f. frameResult f = toFindResult meta (items (frameResult f))
                       \<and> length (items (frameResult f)) = itemChunk) (butlast fs)
      \<and> 0 < length (items (frameResult (last fs)))
      \<and> 2 * length (items (frameResult (last fs))) < 3 * itemChunk)"

section \<open>The session manager: \<^verbatim>\<open>server/ws/src/server.ts\<close>\<close>

subsection \<open>\<^verbatim>\<open>addSession\<close> up to the version gate\<close>

text \<open>
  A token carries the email, the workspace and the extra claims; a token without
  \<^verbatim>\<open>extra\<close> is one with no claim, since the code reads it only as \<^verbatim>\<open>token.extra?.key\<close>.
  Of \<^verbatim>\<open>WorkspaceLoginInfo\<close> the fields \<^verbatim>\<open>addSession\<close> reads are kept. The types \<open>'ver\<close> and
  \<open>'u\<close> are those of a version and of the upgrade progress.
\<close>

record Token =
  email :: string
  workspaceName :: string
  extra :: "string \<rightharpoonup> string"

record ('ver, 'u) WorkspaceLoginInfo =
  workspaceId :: string
  workspaceUrl :: "string option"
  infoWorkspaceName :: "string option"
  branding :: "string option"
  creating :: "bool option"
  version :: "'ver option"
  upgrade :: "'u option"

datatype AddSessionError =
  DuringCreation string string
| NoAccess string string

text \<open>
  What \<^verbatim>\<open>addSession\<close> resolves to: the session with its context, \<^verbatim>\<open>{ upgrade: true,
  upgradeInfo }\<close>, \<^verbatim>\<open>{ error }\<close>; or it throws.
\<close>

datatype ('s, 'u) AddSessionResult =
  SessionOpened 's
| UpgradeRequired "'u option"
| ErrorResult AddSessionError
| Thrown string

definition wsFromToken :: "Token \<Rightarrow> ('ver, 'u) WorkspaceLoginInfo" where
  "wsFromToken token =
     \<lparr>workspaceId = workspaceName token,
      workspaceUrl = Some (workspaceName token),
      infoWorkspaceName = Some (workspaceName token),
      branding = None,
      creating = Some False,
      version = None,
      upgrade = None\<rparr>"

text \<open>
  The loop \<^verbatim>\<open>for (let i = 0; i < 5; i++)\<close> around \<^verbatim>\<open>getWorkspaceInfo\<close>. \<open>getWorkspaceInfo i\<close>
  is the outcome of the call in iteration \<open>i\<close>: the info, or the message of the error it
  throws. The last failure is thrown on.
\<close>

function resolveInfo ::
  "(nat \<Rightarrow> string + ('ver, 'u) WorkspaceLoginInfo) \<Rightarrow> string \<Rightarrow> Token \<Rightarrow> nat
     \<Rightarrow> string + ('ver, 'u) WorkspaceLoginInfo option" where
  "resolveInfo getWorkspaceInfo accountsUrl token i =
     (if i < 5
      then (case (if accountsUrl \<noteq> [] then getWorkspaceInfo i else Inr (wsFromToken token)) of
              Inr info \<Rightarrow> Inr (Some info)
            | Inl err \<Rightarrow>
                if i = 4 then Inl err
                else resolveInfo getWorkspaceInfo accountsUrl token (i + 1))
      else Inr None)"
  by pat_completeness auto
termination
  by (relation "measure (\<lambda>(g, a, t, i). 5 - i)") auto

declare resolveInfo.simps [simp del]

definition versionMismatch ::
  "('ver \<Rightarrow> string) \<Rightarrow> string \<Rightarrow> ('ver, 'u) WorkspaceLoginInfo \<Rightarrow> Token \<Rightarrow> bool" where
  "versionMismatch versionToString modelVersion workspaceInfo token =
     (modelVersion \<noteq> []
      \<and> (case version workspaceInfo of
            None \<Rightarrow> False
          | Some v \<Rightarrow> modelVersion \<noteq> versionToString v)
      \<and> extra token ''model'' \<noteq> Some ''upgrade''
      \<and> extra token ''mode'' \<noteq> Some ''backup'')"

text \<open>
  \<^verbatim>\<open>addSession\<close>. \<open>systemAccountEmail\<close> and \<open>versionToString\<close> come from
  \<^verbatim>\<open>@hcengineering/core\<close> and are parameters. \<open>openSession\<close> is the rest of the method, from
  the lookup of the workspace in the live map to the registration of the session; it is
  entered only past the version gate.
\<close>

definition addSession ::
  "string \<Rightarrow> ('ver \<Rightarrow> string) \<Rightarrow> string
     \<Rightarrow> (nat \<Rightarrow> string + ('ver, 'u) WorkspaceLoginInfo)
     \<Rightarrow> (Token \<Rightarrow> ('ver, 'u) WorkspaceLoginInfo \<Rightarrow> ('s, 'u) AddSessionResult)
     \<Rightarrow> string \<Rightarrow> Token \<Rightarrow> ('s, 'u) AddSessionResult" where
  "addSession systemAccountEmail versionToString modelVersion getWorkspaceInfo openSession
      accountsUrl token =
     (case resolveInfo getWorkspaceInfo accountsUrl token 0 of
        Inl err \<Rightarrow> Thrown err
      | Inr workspaceInfo \<Rightarrow>
          if (case workspaceInfo of None \<Rightarrow> False | Some wi \<Rightarrow> creating wi = Some True)
             \<and> email token \<noteq> systemAccountEmail
          then ErrorResult (DuringCreation (email token) (workspaceName token))
          else if workspaceInfo = None \<and> extra token ''admin'' \<noteq> Some ''true''
          then ErrorResult (NoAccess (email token) (workspaceName token))
          else (let wi = (case workspaceInfo of None \<Rightarrow> wsFromToken token | Some wi \<Rightarrow> wi)
                in if versionMismatch versionToString modelVersion wi token
                   then UpgradeRequired (upgrade wi)
                   else openSession token wi))"

text \<open>
  A workspace still being created, at version \<open>0.6.1\<close>, reached by a user's token with no
  claim, on a server built for \<open>0.6.2\<close>.
\<close>

definition exToken :: Token where
  "exToken = \<lparr>email = ''user@example.com'', workspaceName = ''ws1'', extra = Map.empty\<rparr>"

definition exBackupToken :: Token where
  "exBackupToken =
     \<lparr>email = ''user@example.com'', workspaceName = ''ws1'', extra = [''mode'' \<mapsto> ''backup'']\<rparr>"

definition exInfo :: "bool \<Rightarrow> (string, nat) WorkspaceLoginInfo" where
  "exInfo inCreation =
     \<lparr>workspaceId = ''ws1'', workspaceUrl = None, infoWorkspaceName = None, branding = None,
      creating = Some inCreation, version = Some ''0.6.1'', upgrade = Some 7\<rparr>"

definition exAccounts :: "bool \<Rightarrow> nat \<Rightarrow> string + (string, nat) WorkspaceLoginInfo" where
  "exAccounts inCreation i = (if i < 2 then Inl ''fetch failed'' else Inr (exInfo inCreation))"

definition exVersionToString :: "string \<Rightarrow> string" where
  "exVersionToString v = v"

definition exOpenSession ::
  "Token \<Rightarrow> (string, nat) WorkspaceLoginInfo \<Rightarrow> (string, nat) AddSessionResult" where
  "exOpenSession token wi = SessionOpened (email token)"

subsection \<open>\<^verbatim>\<open>handleInterval\<close>, \<^verbatim>\<open>close\<close> and \<^verbatim>\<open>performWorkspaceCloseCheck\<close>\<close>

text \<open>
  Of a \<^verbatim>\<open>Session\<close> the fields the tick reads and writes are kept: the user, the session
  id, the time of the last request, the start times of the requests in flight and the
  request counters. A \<^verbatim>\<open>Map\<close> is the list of its entries in insertion order. The map
  \<^verbatim>\<open>this.sessions\<close> of the manager, from socket id to \<^verbatim>\<open>{ session, socket }\<close>, is named
  \<open>sessionsBySocket\<close> and holds the id of the session: that is all \<^verbatim>\<open>close\<close> reads of it.
  Of a workspace, \<open>wsUid\<close> is its generated \<^verbatim>\<open>id\<close> and \<open>closing\<close> tells whether the promise
  \<^verbatim>\<open>closing\<close> is set.
\<close>

record Session =
  getUser :: string
  sessionId :: string
  lastRequest :: int
  requests :: "int list"
  current :: "nat \<times> nat"
  mins5 :: "nat \<times> nat"

record SessionRef =
  session :: Session
  socket :: string

record Workspace =
  wsUid :: string
  sessions :: "(string \<times> SessionRef) list"
  softShutdown :: int
  closing :: bool

record SessionManager =
  workspaces :: "(string \<times> Workspace) list"
  sessionsBySocket :: "(string \<times> string) list"
  ticks :: nat

text \<open>
  What a tick does to the outside: the warnings it logs, the sockets it closes, the
  keep-alive frames it sends and the close sequences it starts (with the workspace key
  and the workspace id captured at that moment).
\<close>

datatype Event =
  SessionHang string string
| SocketClose string
| SendPing string
| RequestHang string string
| ClosingWorkspace string
| CloseCheckStarted string string

definition mapDelete :: "'k \<Rightarrow> ('k \<times> 'v) list \<Rightarrow> ('k \<times> 'v) list" where
  "mapDelete k m = filter (\<lambda>e. fst e \<noteq> k) m"

definition mapUpdate :: "'k \<Rightarrow> ('v \<Rightarrow> 'v) \<Rightarrow> ('k \<times> 'v) list \<Rightarrow> ('k \<times> 'v) list" where
  "mapUpdate k f m = map (\<lambda>e. if fst e = k then (fst e, f (snd e)) else e) m"

text \<open>
  \<^verbatim>\<open>close(ctx, ws, wsid)\<close> as the tick calls it, for a socket of the workspace at hand:
  when the socket is registered, its entry and the entry of its session in the workspace
  are deleted and the socket is closed. The reconnect timer it arms runs later, outside
  the tick, and is left out.
\<close>

definition close ::
  "string \<Rightarrow> (string \<times> SessionRef) list \<times> (string \<times> string) list
     \<Rightarrow> ((string \<times> SessionRef) list \<times> (string \<times> string) list) \<times> Event list" where
  "close ws st =
     (case st of (wsSessions, bySocket) \<Rightarrow>
        (case map_of bySocket ws of
           None \<Rightarrow> ((wsSessions, bySocket), [])
         | Some sid \<Rightarrow> ((mapDelete sid wsSessions, mapDelete ws bySocket), [SocketClose ws])))"

definition hangTimeout :: "string \<Rightarrow> Session \<Rightarrow> int" where
  "hangTimeout systemAccountEmail s =
     (let timeout = 60000
      in if getUser s = systemAccountEmail then timeout * 10 else timeout)"

definition rollCounters :: "nat \<Rightarrow> SessionRef \<Rightarrow> SessionRef" where
  "rollCounters tick r =
     (if tick mod (5 * 60) = 0
      then r\<lparr>session := (session r)\<lparr>mins5 := current (session r), current := (0, 0)\<rparr>\<rparr>
      else r)"

definition hangs :: "string \<Rightarrow> nat \<Rightarrow> int \<Rightarrow> SessionRef \<Rightarrow> bool" where
  "hangs systemAccountEmail tick now r =
     (now - lastRequest (session r) > hangTimeout systemAccountEmail (session r)
      \<and> tick mod 10 = 0)"

definition quietEvents :: "nat \<Rightarrow> int \<Rightarrow> string \<Rightarrow> SessionRef \<Rightarrow> Event list" where
  "quietEvents tick now wsId r =
     (let diff = now - lastRequest (session r)
      in (if diff > 20000 \<and> diff < 60000 \<and> tick mod 10 = 0 then [SendPing (socket r)] else [])
         @ map (\<lambda>start. RequestHang wsId (getUser (session r)))
               (filter (\<lambda>start. now - start > 30000) (requests (session r))))"

text \<open>
  The loop \<^verbatim>\<open>for (const s of workspace.sessions)\<close>. The first argument list holds the
  entries the iteration has still to visit: an entry deleted by \<^verbatim>\<open>close\<close> before its turn
  is not visited. \<open>now\<close> is what \<^verbatim>\<open>Date.now()\<close> returns during the tick.
\<close>

function tickSessions ::
  "string \<Rightarrow> nat \<Rightarrow> int \<Rightarrow> string \<Rightarrow> (string \<times> SessionRef) list
     \<Rightarrow> ((string \<times> SessionRef) list \<times> (string \<times> string) list) \<times> Event list
     \<Rightarrow> ((string \<times> SessionRef) list \<times> (string \<times> string) list) \<times> Event list" where
  "tickSessions systemAccountEmail tick now wsId [] acc = acc"
| "tickSessions systemAccountEmail tick now wsId (s # todo) acc =
     (case acc of ((wsSessions, bySocket), evs) \<Rightarrow>
        (let wsSessions1 = mapUpdate (fst s) (rollCounters tick) wsSessions
         in if hangs systemAccountEmail tick now (snd s)
            then (case close (socket (snd s)) (wsSessions1, bySocket) of
                    (st, closed) \<Rightarrow>
                      tickSessions systemAccountEmail tick now wsId
                        (filter (\<lambda>e. fst e \<in> fst ` set (fst st)) todo)
                        (st, evs @ [SessionHang wsId (getUser (session (snd s)))] @ closed))
            else tickSessions systemAccountEmail tick now wsId todo
                   ((wsSessions1, bySocket), evs @ quietEvents tick now wsId (snd s))))"
  by pat_completeness auto
termination
  by (relation "measure (\<lambda>(e, t, n, w, todo, acc). length todo)")
     (auto simp: less_Suc_eq_le)

text \<open>
  The countdown at the end of the body of the outer loop: the new value of
  \<^verbatim>\<open>softShutdown\<close> and whether the close sequence is started.
\<close>

definition countdown :: "bool \<Rightarrow> bool \<Rightarrow> int \<Rightarrow> int \<times> bool" where
  "countdown noSessions closingSet soft =
     (if noSessions \<and> \<not> closingSet
      then (soft - 1, soft - 1 \<le> 0)
      else (3, False))"

definition tickWorkspace ::
  "string \<Rightarrow> nat \<Rightarrow> int \<Rightarrow> string \<Rightarrow> Workspace \<Rightarrow> (string \<times> string) list
     \<Rightarrow> (Workspace \<times> (string \<times> string) list) \<times> Event list" where
  "tickWorkspace systemAccountEmail tick now wsId workspace bySocket =
     (case tickSessions systemAccountEmail tick now wsId (sessions workspace)
             ((sessions workspace, bySocket), []) of
        ((wsSessions, bySocket'), evs) \<Rightarrow>
          (case countdown (wsSessions = []) (closing workspace) (softShutdown workspace) of
             (soft, start) \<Rightarrow>
               ((workspace\<lparr>sessions := wsSessions, softShutdown := soft,
                            closing := (closing workspace \<or> start)\<rparr>, bySocket'),
                evs @ (if start
                       then [ClosingWorkspace wsId, CloseCheckStarted wsId (wsUid workspace)]
                       else []))))"

fun tickWorkspaces ::
  "string \<Rightarrow> nat \<Rightarrow> int \<Rightarrow> (string \<times> Workspace) list \<Rightarrow> (string \<times> string) list
     \<Rightarrow> ((string \<times> Workspace) list \<times> (string \<times> string) list) \<times> Event list" where
  "tickWorkspaces systemAccountEmail tick now [] bySocket = (([], bySocket), [])"
| "tickWorkspaces systemAccountEmail tick now (w # ws) bySocket =
     (case tickWorkspace systemAccountEmail tick now (fst w) (snd w) bySocket of
        ((w', bySocket1), evs1) \<Rightarrow>
          (case tickWorkspaces systemAccountEmail tick now ws bySocket1 of
             ((ws', bySocket2), evs2) \<Rightarrow> (((fst w, w') # ws', bySocket2), evs1 @ evs2)))"

definition handleInterval ::
  "string \<Rightarrow> int \<Rightarrow> SessionManager \<Rightarrow> SessionManager \<times> Event list" where
  "handleInterval systemAccountEmail now m =
     (case tickWorkspaces systemAccountEmail (ticks m) now (workspaces m) (sessionsBySocket m) of
        ((ws', bySocket'), evs) \<Rightarrow>
          (\<lparr>workspaces = ws', sessionsBySocket = bySocket', ticks = ticks m + 1\<rparr>, evs))"

text \<open>
  \<^verbatim>\<open>performWorkspaceCloseCheck\<close>, from the moment its awaits are over. \<open>wsUID\<close> is the
  workspace id captured when the sequence started, \<open>noSessions\<close> whether the workspace had
  no session then, \<open>threw\<close> whether waiting for the pipeline or closing it threw, and
  \<open>live\<close> the map of workspaces as it is when the awaits are over.
\<close>

definition performWorkspaceCloseCheck ::
  "string \<Rightarrow> bool \<Rightarrow> bool \<Rightarrow> string \<Rightarrow> (string \<times> Workspace) list \<Rightarrow> (string \<times> Workspace) list" where
  "performWorkspaceCloseCheck wsUID noSessions threw wsid live =
     (if noSessions
      then (if threw then mapDelete wsid live
            else (case map_of live wsid of
                    None \<Rightarrow> live
                  | Some installed \<Rightarrow>
                      if wsUid installed = wsUID then mapDelete wsid live else live))
      else live)"

text \<open>
  How \<^verbatim>\<open>softShutdown\<close> of a workspace moves over a run of ticks, given for each tick
  whether the workspace has no session at the end of the session loop: the state is the
  countdown, whether \<^verbatim>\<open>closing\<close> is set and the ticks that started a close sequence.
\<close>

fun countdownRun :: "bool list \<Rightarrow> int \<times> bool \<Rightarrow> (int \<times> bool) \<times> bool list" where
  "countdownRun [] st = (st, [])"
| "countdownRun (noSessions # rest) st =
     (case countdown noSessions (snd st) (fst st) of
        (soft, start) \<Rightarrow>
          (case countdownRun rest (soft, snd st \<or> start) of
             (st', starts) \<Rightarrow> (st', start # starts)))"

text \<open>
  The sessions of a workspace are registered when their keys differ and the socket of
  each is entered in the manager's map under the key of the session, as \<^verbatim>\<open>addSession\<close>
  enters them.
\<close>

definition registered :: "(string \<times> SessionRef) list \<Rightarrow> (string \<times> string) list \<Rightarrow> bool" where
  "registered ss bySocket =
     (distinct (map fst ss)
      \<and> list_all (\<lambda>e. map_of bySocket (socket (snd e)) = Some (fst e)) ss)"

text \<open>
  The manager's maps are well registered when the keys of the live map differ, the
  sessions of every workspace are registered, and no socket serves two sessions.
\<close>

definition socketsOf :: "Workspace \<Rightarrow> string list" where
  "socketsOf w = map (\<lambda>e. socket (snd e)) (sessions w)"

definition wellRegistered :: "SessionManager \<Rightarrow> bool" where
  "wellRegistered m =
     (distinct (map fst (workspaces m))
      \<and> list_all (\<lambda>e. registered (sessions (snd e)) (sessionsBySocket m)) (workspaces m)
      \<and> distinct (concat (map (\<lambda>e. socketsOf (snd e)) (workspaces m))))"

text \<open>
  A manager with one workspace and two sessions that sent their last request at time 0:
  one of a user, one of the system account.
\<close>

definition exWorkspace :: Workspace where
  "exWorkspace =
     \<lparr>wsUid = ''u1'',
      sessions =
        [(''s1'', \<lparr>session = \<lparr>getUser = ''user@example.com'', sessionId = ''s1'',
                               lastRequest = 0, requests = [], current = (4, 2),
                               mins5 = (0, 0)\<rparr>,
                   socket = ''sock1''\<rparr>),
         (''s2'', \<lparr>session = \<lparr>getUser = ''system@example.com'', sessionId = ''s2'',
                               lastRequest = 0, requests = [], current = (0, 0),
                               mins5 = (0, 0)\<rparr>,
                   socket = ''sock2''\<rparr>)],
      softShutdown = 3,
      closing = False\<rparr>"

definition exManager :: SessionManager where
  "exManager =
     \<lparr>workspaces = [(''ws1'', exWorkspace)],
      sessionsBySocket = [(''sock1'', ''s1''), (''sock2'', ''s2'')],
      ticks = 10\<rparr>"

definition exIdle :: "bool \<Rightarrow> int \<Rightarrow> Workspace" where
  "exIdle closingSet soft =
     \<lparr>wsUid = ''u1'', sessions = [], softShutdown = soft, closing = closingSet\<rparr>"

section \<open>The removal pass of \<^verbatim>\<open>restore\<close>: \<^verbatim>\<open>server/backup/src/backup.ts\<close>\<close>

text \<open>
  Modelled from the spec: the domain constants \<^verbatim>\<open>DOMAIN_BLOB\<close>,
  \<^verbatim>\<open>DOMAIN_DOC_INDEX_STATE\<close> and \<^verbatim>\<open>DOMAIN_FULLTEXT_BLOB\<close> are declared in
  \<^verbatim>\<open>@hcengineering/core\<close>, which is not among the sources at hand. They are the domains
  named \<open>blob\<close>, \<open>doc-index-state\<close> and \<open>fulltext-blob\<close>; the last name is also written
  out in \<^verbatim>\<open>backup.ts\<close>.
\<close>

definition DOMAIN_BLOB :: domain where
  "DOMAIN_BLOB = ''blob''"

definition DOMAIN_DOC_INDEX_STATE :: domain where
  "DOMAIN_DOC_INDEX_STATE = ''doc-index-state''"

definition DOMAIN_FULLTEXT_BLOB :: domain where
  "DOMAIN_FULLTEXT_BLOB = ''fulltext-blob''"

text \<open>A call of \<^verbatim>\<open>connection.clean(c, part)\<close> and whether it returned or threw.\<close>

record CleanCall =
  cleanDomain :: domain
  cleanIds :: "ref list"
  cleanOk :: bool

text \<open>
  \<^verbatim>\<open>performCleanOfDomain\<close>. \<open>succeeds k\<close> tells whether the \<open>k\<close>-th call of \<^verbatim>\<open>clean\<close> in the
  run returns; a batch whose call throws is pushed back on the queue. The loop goes on
  for as long as calls fail, so the model counts the iterations it may still make: it
  returns the calls made, the number of the next call and whether the queue was emptied.
\<close>

fun performCleanOfDomain ::
  "nat \<Rightarrow> (nat \<Rightarrow> bool) \<Rightarrow> nat \<Rightarrow> ref list \<Rightarrow> domain \<Rightarrow> CleanCall list \<times> nat \<times> bool" where
  "performCleanOfDomain fuel succeeds k docsToRemove c =
     (if docsToRemove = [] then ([], k, True)
      else (case fuel of
              0 \<Rightarrow> ([], k, False)
            | Suc fuel' \<Rightarrow>
                (let part = take 10000 docsToRemove;
                     rest = drop 10000 docsToRemove;
                     call = \<lparr>cleanDomain = c, cleanIds = part, cleanOk = succeeds k\<rparr>
                 in case performCleanOfDomain fuel' succeeds (k + 1)
                           (if succeeds k then rest else rest @ part) c of
                      (calls, k', done) \<Rightarrow> (call # calls, k', done))))"

declare performCleanOfDomain.simps [simp del]

text \<open>
  The ids \<^verbatim>\<open>processDomain\<close> finds on the server and not in the target digest. The
  server's digest is the \<^verbatim>\<open>Map\<close> filled from the chunks, as its list of entries.
\<close>

definition docsToRemoveOf :: "(ref \<times> string) list \<Rightarrow> digest \<Rightarrow> ref list" where
  "docsToRemoveOf serverChangeset changeset =
     filter (\<lambda>it. changeset it = None) (map fst serverChangeset)"

text \<open>
  The end of \<^verbatim>\<open>processDomain\<close>, from \<^verbatim>\<open>if (c !== DOMAIN_BLOB)\<close> on: the calls of \<^verbatim>\<open>clean\<close>
  it makes and whether it got through. \<open>merge\<close> is \<^verbatim>\<open>opt.merge\<close>.
\<close>

definition removalPass ::
  "nat \<Rightarrow> (nat \<Rightarrow> bool) \<Rightarrow> domain \<Rightarrow> ref list \<Rightarrow> bool option \<Rightarrow> CleanCall list \<times> bool" where
  "removalPass fuel succeeds c docsToRemove merge =
     (if c \<noteq> DOMAIN_BLOB
      then (if docsToRemove \<noteq> [] \<and> merge \<noteq> Some True
            then (if c = DOMAIN_DOC_INDEX_STATE
                  then (case performCleanOfDomain fuel succeeds 0 docsToRemove DOMAIN_FULLTEXT_BLOB of
                          (calls1, k, done1) \<Rightarrow>
                            if done1
                            then (case performCleanOfDomain fuel succeeds k docsToRemove c of
                                    (calls2, k', done2) \<Rightarrow> (calls1 @ calls2, done2))
                            else (calls1, False))
                  else (case performCleanOfDomain fuel succeeds 0 docsToRemove c of
                          (calls, k, done) \<Rightarrow> (calls, done)))
            else ([], True))
      else ([], True))"

definition cleaned :: "domain \<Rightarrow> CleanCall list \<Rightarrow> ref list" where
  "cleaned c calls = concat (map cleanIds (filter (\<lambda>call. cleanDomain call = c \<and> cleanOk call) calls))"

definition alwaysSucceeds :: "nat \<Rightarrow> bool" where
  "alwaysSucceeds k = True"

definition failsOnce :: "nat \<Rightarrow> bool" where
  "failsOnce k = (k \<noteq> 0)"

section \<open>Moving blobs between providers: \<^verbatim>\<open>processAdapter\<close>\<close>

text \<open>
  Of a blob the id, the provider and the size are kept. The adapters are the environment
  of \<^verbatim>\<open>processAdapter\<close>: each call either returns or throws, \<open>Inl\<close> holding the message of
  the error thrown. \<open>targetBlobs\<close> is the map filled from the listing of the target on
  the first bulk; \<open>aggrStat\<close> is \<^verbatim>\<open>exAdapter.stat\<close>, \<open>syncTarget\<close> is
  \<^verbatim>\<open>exAdapter.syncBlobFromStorage\<close> for a blob the target lists, \<open>sourceStat\<close> is
  \<^verbatim>\<open>source.stat\<close>, \<open>copyBlob i k\<close> is the \<open>k\<close>-th run of the operation handed to
  \<^verbatim>\<open>retryOnFailure\<close> for the blob \<open>i\<close> (\<^verbatim>\<open>processFile\<close>, then \<^verbatim>\<open>syncBlobFromStorage\<close>), and
  \<open>sourceRemove\<close> is \<^verbatim>\<open>source.remove\<close>, \<open>Some\<close> holding the error it throws.
\<close>

record Blob =
  blobId :: string
  provider :: string
  blobSize :: nat

record MoveEnv =
  targetBlobs :: "string \<rightharpoonup> Blob"
  aggrStat :: "string \<Rightarrow> string + Blob option"
  syncTarget :: "string \<Rightarrow> string + Blob"
  sourceStat :: "string \<Rightarrow> string + Blob option"
  copyBlob :: "string \<Rightarrow> nat \<Rightarrow> string + Blob"
  sourceRemove :: "string list \<Rightarrow> string option"

datatype LogEntry =
  TargetExists string
| BlobNotFound string
| AttemptFailed string
| FailedToProcess string

text \<open>
  The state of the loop over the listing: the deletion queue \<^verbatim>\<open>toRemove\<close>, what was
  written to the console, and the error that escaped, if one did. The counters kept for
  \<^verbatim>\<open>printStats\<close> are left out.
\<close>

record MoveState =
  toRemove :: "string list"
  moveLog :: "LogEntry list"
  thrown :: "string option"

text \<open>
  \<^verbatim>\<open>retryOnFailure(ctx, retries, op, delay)\<close>: the errors logged and the value returned, or
  the last error thrown on (\<open>None\<close> when the operation was never run).
\<close>

fun retryOnFailure ::
  "nat \<Rightarrow> (nat \<Rightarrow> string + 'a) \<Rightarrow> nat \<Rightarrow> string option \<Rightarrow> string list \<times> (string option + 'a)" where
  "retryOnFailure 0 op k lastError = ([], Inl lastError)"
| "retryOnFailure (Suc retries) op k lastError =
     (case op k of
        Inr v \<Rightarrow> ([], Inr v)
      | Inl err \<Rightarrow>
          (case retryOnFailure retries op (k + 1) (Some err) of
             (errs, r) \<Rightarrow> (err # errs, r)))"

text \<open>
  The body of \<^verbatim>\<open>for (const data of dataBulk)\<close>. \<^verbatim>\<open>rateLimiter.exec(op)\<close> runs \<open>op\<close> and
  resolves to its value; the loop awaits it.
\<close>

definition processBlob :: "MoveEnv \<Rightarrow> string \<Rightarrow> MoveState \<Rightarrow> MoveState" where
  "processBlob env dataId st =
     (case targetBlobs env dataId of
        Some targetBlob \<Rightarrow>
          (let st1 = st\<lparr>moveLog := moveLog st @ [TargetExists (blobId targetBlob)]\<rparr>
           in case aggrStat env dataId of
                Inl err \<Rightarrow> st1\<lparr>thrown := Some err\<rparr>
              | Inr aggrBlob \<Rightarrow>
                  (case (if aggrBlob = None
                            \<or> map_option provider aggrBlob \<noteq> Some (provider targetBlob)
                         then syncTarget env (blobId targetBlob)
                         else Inr targetBlob) of
                     Inl err \<Rightarrow> st1\<lparr>thrown := Some err\<rparr>
                   | Inr synced \<Rightarrow> st1\<lparr>toRemove := toRemove st1 @ [dataId]\<rparr>))
      | None \<Rightarrow>
          (case sourceStat env dataId of
             Inl err \<Rightarrow> st\<lparr>thrown := Some err\<rparr>
           | Inr None \<Rightarrow> st\<lparr>moveLog := moveLog st @ [BlobNotFound dataId]\<rparr>
           | Inr (Some sourceBlob) \<Rightarrow>
               (case retryOnFailure 5 (copyBlob env (blobId sourceBlob)) 0 None of
                  (errs, Inr result) \<Rightarrow>
                    st\<lparr>moveLog := moveLog st @ map AttemptFailed errs,
                       toRemove := toRemove st @ [blobId sourceBlob]\<rparr>
                | (errs, Inl lastError) \<Rightarrow>
                    st\<lparr>moveLog := moveLog st @ map AttemptFailed errs
                                    @ [FailedToProcess dataId]\<rparr>)))"

fun processBulk :: "MoveEnv \<Rightarrow> string list \<Rightarrow> MoveState \<Rightarrow> MoveState" where
  "processBulk env [] st = st"
| "processBulk env (dataId # rest) st =
     (let st' = processBlob env dataId st
      in if thrown st' \<noteq> None then st' else processBulk env rest st')"

text \<open>
  The loop \<^verbatim>\<open>while (true)\<close> over the bulks the listing of the source yields; an empty
  bulk, or the end of the listing, ends it.
\<close>

fun processBulks :: "MoveEnv \<Rightarrow> string list list \<Rightarrow> MoveState \<Rightarrow> MoveState" where
  "processBulks env [] st = st"
| "processBulks env (dataBulk # rest) st =
     (if dataBulk = [] then st
      else (let st' = processBulk env dataBulk st
            in if thrown st' \<noteq> None then st' else processBulks env rest st'))"

text \<open>
  The loop \<^verbatim>\<open>while (toRemove.length > 0)\<close>: the calls of \<^verbatim>\<open>source.remove\<close> made and the
  error that ended them, if one did.
\<close>

function removeBatches :: "MoveEnv \<Rightarrow> string list \<Rightarrow> string list list \<times> string option" where
  "removeBatches env queue =
     (if queue = [] then ([], None)
      else (let part = take 500 queue
            in case sourceRemove env part of
                 Some err \<Rightarrow> ([part], Some err)
               | None \<Rightarrow>
                   (case removeBatches env (drop 500 queue) of
                      (calls, r) \<Rightarrow> (part # calls, r))))"
  by pat_completeness auto
termination
  by (relation "measure (\<lambda>(env, queue). length queue)") auto

declare removeBatches.simps [simp del]

record MoveResult =
  removeCalls :: "string list list"
  finalState :: MoveState

text \<open>
  \<^verbatim>\<open>processAdapter\<close>: \<open>sameAdapter\<close> is \<^verbatim>\<open>source === target\<close>, \<open>bulks\<close> what the listing of the
  source yields and \<open>move\<close> is \<^verbatim>\<open>params.move\<close>.
\<close>

definition processAdapter :: "MoveEnv \<Rightarrow> bool \<Rightarrow> string list list \<Rightarrow> bool \<Rightarrow> MoveResult" where
  "processAdapter env sameAdapter bulks move =
     (let st0 = \<lparr>toRemove = [], moveLog = [], thrown = None\<rparr>
      in if sameAdapter then \<lparr>removeCalls = [], finalState = st0\<rparr>
         else (let st = processBulks env bulks st0
               in if thrown st \<noteq> None then \<lparr>removeCalls = [], finalState = st\<rparr>
                  else if toRemove st \<noteq> [] \<and> move
                  then (case removeBatches env (toRemove st) of
                          (calls, r) \<Rightarrow> \<lparr>removeCalls = calls, finalState = st\<lparr>thrown := r\<rparr>\<rparr>)
                  else \<lparr>removeCalls = [], finalState = st\<rparr>))"

text \<open>The copy of a blob fails when each of the five runs \<^verbatim>\<open>retryOnFailure\<close> makes throws.\<close>

definition copyFails :: "MoveEnv \<Rightarrow> string \<Rightarrow> bool" where
  "copyFails env i = list_all (\<lambda>k. isl (copyBlob env i k)) [0, 1, 2, 3, 4]"

text \<open>\<^verbatim>\<open>source.stat\<close> answers with the blob it was asked for.\<close>

definition statsById :: "MoveEnv \<Rightarrow> string list \<Rightarrow> bool" where
  "statsById env ids =
     list_all (\<lambda>i. case sourceStat env i of Inr (Some b) \<Rightarrow> blobId b = i | _ \<Rightarrow> True) ids"

text \<open>
  A source that lists three blobs, none of them on the target; the copy of \<open>b2\<close> fails
  every time, the others go through at once.
\<close>

definition exMoveEnv :: MoveEnv where
  "exMoveEnv =
     \<lparr>targetBlobs = Map.empty,
      aggrStat = (\<lambda>i. Inr None),
      syncTarget = (\<lambda>i. Inr \<lparr>blobId = i, provider = ''default'', blobSize = 0\<rparr>),
      sourceStat = (\<lambda>i. Inr (Some \<lparr>blobId = i, provider = ''old'', blobSize = 10\<rparr>)),
      copyBlob = (\<lambda>i k. if i = ''b2'' then Inl ''connection reset''
                         else Inr \<lparr>blobId = i, provider = ''default'', blobSize = 10\<rparr>),
      sourceRemove = (\<lambda>part. None)\<rparr>"

section \<open>The backup run: \<^verbatim>\<open>backup\<close> in \<^verbatim>\<open>server/backup/src/backup.ts\<close>\<close>
















section \<open>The snapshot file format\<close>

lemma splitStr_nonempty: "splitStr c s \<noteq> []"
  by (induction s) (auto split: list.splits)

lemma splitStr_plain: "c \<notin> set l \<Longrightarrow> splitStr c l = [l]"
  by (induction l) auto

lemma splitStr_line: "c \<notin> set l \<Longrightarrow> splitStr c (l @ c # rest) = l # splitStr c rest"
  by (induction l) (auto split: list.splits)

lemma splitStr_lines:
  "\<forall>l \<in> set ls. c \<notin> set l \<Longrightarrow> splitStr c (concat (map (\<lambda>l. l @ [c]) ls)) = ls @ [[]]"
  by (induction ls) (auto simp: splitStr_line)

lemma showNat_nonempty: "showNat n \<noteq> []"
  by (subst showNat.simps) simp

lemma of_char_digit: "d < 10 \<Longrightarrow> (of_char (char_of (48 + d :: nat)) :: nat) = 48 + d"
  by simp

lemma showNat_chars:
  "c \<in> set (showNat n) \<Longrightarrow> 48 \<le> (of_char c :: nat) \<and> (of_char c :: nat) \<le> 57"
proof (induction n rule: showNat.induct)
  case (1 n)
  show ?case
  proof (cases "n < 10")
    case True
    then have "c = char_of (48 + n)" using "1.prems" by (subst (asm) showNat.simps) simp
    then show ?thesis using True by (simp add: of_char_digit)
  next
    case False
    then have "c \<in> set (showNat (n div 10)) \<or> c = char_of (48 + n mod 10)"
      using "1.prems" by (subst (asm) showNat.simps) auto
    then show ?thesis
    proof
      assume "c \<in> set (showNat (n div 10))"
      then show ?thesis using "1.IH" False by simp
    next
      assume "c = char_of (48 + n mod 10)"
      moreover have "n mod 10 < 10" by simp
      ultimately show ?thesis using of_char_digit [of "n mod 10"] by simp
    qed
  qed
qed

lemma radixDigit_dec: "d < 10 \<Longrightarrow> radixDigit 10 (char_of (48 + d :: nat)) = Some d"
  by (simp add: radixDigit_def digitOf_def of_char_digit Let_def)

lemma showNat_digits:
  "\<exists>ds. ds \<noteq> [] \<and> (\<forall>ys. digitsPrefix 10 (showNat n @ ys) = ds @ digitsPrefix 10 ys)
        \<and> (\<forall>a. foldl (\<lambda>acc d. acc * 10 + d) a ds = a * 10 ^ length ds + n)"
proof (induction n rule: showNat.induct)
  case (1 n)
  show ?case
  proof (cases "n < 10")
    case True
    then have s: "showNat n = [char_of (48 + n)]" by (subst showNat.simps) simp
    show ?thesis
      by (rule exI [of _ "[n]"]) (simp add: s radixDigit_dec True)
  next
    case False
    then have s: "showNat n = showNat (n div 10) @ [char_of (48 + n mod 10)]"
      by (subst showNat.simps) simp
    from "1.IH" False obtain ds where ds: "ds \<noteq> []"
      "\<And>ys. digitsPrefix 10 (showNat (n div 10) @ ys) = ds @ digitsPrefix 10 ys"
      "\<And>a. foldl (\<lambda>acc d. acc * 10 + d) a ds = a * 10 ^ length ds + n div 10"
      by auto
    have m: "n mod 10 < 10" by simp
    show ?thesis
    proof (rule exI [of _ "ds @ [n mod 10]"], intro conjI allI)
      show "ds @ [n mod 10] \<noteq> []" by simp
      fix ys
      show "digitsPrefix 10 (showNat n @ ys) = (ds @ [n mod 10]) @ digitsPrefix 10 ys"
        by (simp add: s ds(2) radixDigit_dec [OF m])
    next
      fix a
      have "foldl (\<lambda>acc d. acc * 10 + d) a (ds @ [n mod 10])
              = foldl (\<lambda>acc d. acc * 10 + d) a ds * 10 + n mod 10"
        by simp
      also have "\<dots> = (a * 10 ^ length ds + n div 10) * 10 + n mod 10"
        by (simp only: ds(3))
      also have "\<dots> = a * 10 ^ length (ds @ [n mod 10]) + n"
        by (simp add: algebra_simps)
      finally show "foldl (\<lambda>acc d. acc * 10 + d) a (ds @ [n mod 10])
              = a * 10 ^ length (ds @ [n mod 10]) + n" .
    qed
  qed
qed

lemma not_ws_digit:
  "48 \<le> (of_char c :: nat) \<Longrightarrow> of_char c \<le> (57::nat) \<Longrightarrow> \<not> isStrWhiteSpace c"
  by (auto simp: isStrWhiteSpace_def)

lemma parseInt_showNat: "parseInt (showNat n) = Some (int n)"
proof -
  obtain c r where cr: "showNat n = c # r"
    using showNat_nonempty [of n] by (cases "showNat n") auto
  have c: "48 \<le> (of_char c :: nat)" "(of_char c :: nat) \<le> 57"
    using showNat_chars [of c n] cr by auto
  have d1: "dropWhile isStrWhiteSpace (showNat n) = showNat n"
    using not_ws_digit [OF c] cr by simp
  have d2: "stripSign (showNat n) = (False, showNat n)"
    using c cr by (auto simp: stripSign_def)
  have d3: "stripPrefix (showNat n) = (10, showNat n)"
  proof (cases r)
    case Nil
    then show ?thesis using cr by (simp add: stripPrefix_def)
  next
    case (Cons b r')
    have "48 \<le> (of_char b :: nat) \<and> (of_char b :: nat) \<le> 57"
      using showNat_chars [of b n] cr Cons by simp
    then have "b \<noteq> CHR ''x'' \<and> b \<noteq> CHR ''X''" by auto
    then show ?thesis using cr Cons by (simp add: stripPrefix_def)
  qed
  obtain ds where ds: "ds \<noteq> []"
    "\<And>ys. digitsPrefix 10 (showNat n @ ys) = ds @ digitsPrefix 10 ys"
    "\<And>a. foldl (\<lambda>acc d. acc * 10 + d) a ds = a * 10 ^ length ds + n"
    using showNat_digits [of n] by auto
  have d4: "digitsPrefix 10 (showNat n) = ds" using ds(2) [of "[]"] by simp
  show ?thesis
    by (simp add: parseInt_def d1 d2 d3 d4 ds(1) ds(3))
qed

lemma showNat_lineSafe: "CHR 0x0A \<notin> set (showNat n)"
  using showNat_chars [of "CHR 0x0A" n] by auto

lemma shiftCount_showNat: "shiftCount (showNat n # ls) = (Some (int n), ls)"
  by (simp add: shiftCount_def parseInt_showNat)

lemma splice0_exact: "length xs = n \<Longrightarrow> splice0 (Some (int n)) (xs @ ys) = (xs, ys)"
  by (simp add: splice0_def)

lemma splitPair_pairBody:
  "CHR '';'' \<notin> set (fst kv) \<Longrightarrow> CHR '';'' \<notin> set (snd kv)
   \<Longrightarrow> splitPair (pairBody kv) = (fst kv, Hash (snd kv))"
  by (simp add: splitPair_def pairBody_def splitStr_line splitStr_plain)

lemma writeChanges_lines:
  "writeChanges changes =
     concat (map (\<lambda>l. l @ [CHR 0x0A])
       (showNat (length (added changes)) # map pairBody (added changes)
        @ showNat (length (updated changes)) # map pairBody (updated changes)
        @ showNat (length (removed changes)) # removed changes))"
proof -
  have p: "concat (map pairLine xs) = concat (map (\<lambda>l. l @ [CHR 0x0A]) (map pairBody xs))" for xs
    by (induction xs) (simp_all add: pairLine_def pairBody_def)
  have q: "concat (map idLine xs) = concat (map (\<lambda>l. l @ [CHR 0x0A]) xs)" for xs
    by (induction xs) (simp_all add: idLine_def)
  show ?thesis by (simp add: writeChanges_def p q)
qed

lemma map_splitPair_hashed:
  "list_all (\<lambda>kv. fieldSafe (fst kv) \<and> fieldSafe (snd kv)) xs
   \<Longrightarrow> map splitPair (map pairBody xs) = hashed xs"
  by (induction xs) (auto simp: hashed_def splitPair_pairBody fieldSafe_def)

lemma parseChanges_writeChanges:
  assumes "encodable changes"
  shows "parseChanges (writeChanges changes)
           = (hashed (added changes), hashed (updated changes), removed changes)
         \<and> splitStr CHR 0x0A (writeChanges changes)
           = showNat (length (added changes)) # map pairBody (added changes)
             @ showNat (length (updated changes)) # map pairBody (updated changes)
             @ showNat (length (removed changes)) # removed changes @ [[]]"
proof -
  let ?a = "added changes" and ?u = "updated changes" and ?r = "removed changes"
  let ?ls = "showNat (length ?a) # map pairBody ?a
        @ showNat (length ?u) # map pairBody ?u
        @ showNat (length ?r) # ?r"
  have safe: "\<forall>l \<in> set ?ls. CHR 0x0A \<notin> set l"
    using assms
    by (auto simp: encodable_def list_all_iff fieldSafe_def lineSafe_def pairBody_def
        showNat_lineSafe)
  have sp: "splitStr CHR 0x0A (writeChanges changes) = ?ls @ [[]]"
    unfolding writeChanges_lines by (rule splitStr_lines [OF safe])
  have a: "map splitPair (map pairBody ?a) = hashed ?a"
    and u: "map splitPair (map pairBody ?u) = hashed ?u"
    using assms by (simp_all add: encodable_def map_splitPair_hashed del: map_map)
  have s1: "\<And>ys. splice0 (Some (int (length ?a))) (map pairBody ?a @ ys) = (map pairBody ?a, ys)"
    by (rule splice0_exact) simp
  have s2: "\<And>ys. splice0 (Some (int (length ?u))) (map pairBody ?u @ ys) = (map pairBody ?u, ys)"
    by (rule splice0_exact) simp
  have s3: "\<And>ys. splice0 (Some (int (length ?r))) (?r @ ys) = (?r, ys)"
    by (rule splice0_exact) simp
  have "parseChanges (writeChanges changes) = (hashed ?a, hashed ?u, ?r)"
    unfolding parseChanges_def sp
    by (simp add: shiftCount_showNat s1 s2 s3 a u del: map_map)
  then show ?thesis using sp by simp
qed

section \<open>Digest replay\<close>

lemma setAll_eq: "setAll a m = m ++ map_of (rev a)"
  by (induction a arbitrary: m) (auto simp: map_add_upd_left fun_eq_iff map_add_def split: option.splits)

lemma deleteAll_eq: "deleteAll r m = (\<lambda>k. if k \<in> set r then None else m k)"
  by (induction r arbitrary: m) (auto simp: fun_eq_iff)

lemma applyChanges_foldChange: "applyChanges ch m = foldChange m ch"
  by (cases ch) (simp add: applyChanges_def foldChange_def setAll_eq deleteAll_eq)

lemma loadSnapshotFiles_fold:
  "loadSnapshotFiles st fs r =
     foldl foldChange r
       (concat (map (\<lambda>f. case textFiles st f of None \<Rightarrow> [] | Some t \<Rightarrow> [parseChanges t]) fs))"
  by (induction fs arbitrary: r) (auto simp: applyChanges_foldChange split: option.splits)

lemma loadDigest_step:
  assumes "legacyLoads st dmn s"
  shows "\<exists>r1. loadLegacy st (domains s dmn) r = Inr r1 \<and>
           loadSnapshotFiles st (snapshotFiles (domains s dmn)) r1
             = foldl foldChange r (changesOf st dmn s)"
  using assms
  by (auto simp: legacyLoads_def loadLegacy_def snapshotFiles_def changesOf_def
      loadSnapshotFiles_fold applyChanges_foldChange split: option.splits)

lemma loadDigestLoop_fold:
  "\<forall>s \<in> set (uptoDate tdate snaps). legacyLoads st dmn s \<Longrightarrow>
   loadDigestLoop st snaps dmn tdate r =
     Inr (foldl foldChange r (concat (map (changesOf st dmn) (uptoDate tdate snaps))))"
proof (induction snaps arbitrary: r)
  case Nil
  then show ?case by simp
next
  case (Cons s ss)
  have ll: "legacyLoads st dmn s" using Cons.prems by (simp split: if_splits)
  obtain r1 where r1: "loadLegacy st (domains s dmn) r = Inr r1"
    and r2: "loadSnapshotFiles st (snapshotFiles (domains s dmn)) r1
             = foldl foldChange r (changesOf st dmn s)"
    using loadDigest_step [OF ll] by blast
  show ?case
  proof (cases "tdate = Some (date s)")
    case True
    then show ?thesis using r1 r2 by simp
  next
    case False
    then have "\<forall>s \<in> set (uptoDate tdate ss). legacyLoads st dmn s"
      using Cons.prems by simp
    from Cons.IH [OF this] show ?thesis using False r1 r2 by simp
  qed
qed

lemma map_of_hashed: "map_of (rev (hashed xs)) = map_option Hash \<circ> map_of (rev xs)"
proof -
  have "rev (hashed xs) = map (\<lambda>(k, v). (k, Hash v)) (rev xs)"
    by (simp add: hashed_def rev_map case_prod_beta)
  then show ?thesis by (simp add: map_of_map)
qed

lemma foldChange_specApply:
  "foldChange (map_option Hash \<circ> m) (changesV6 c) = map_option Hash \<circ> specApply m c"
  by (auto simp: foldChange_def changesV6_def specApply_def map_of_hashed fun_eq_iff
      map_add_def split: option.splits)

lemma foldl_specApply:
  "foldl foldChange (map_option Hash \<circ> m) (map changesV6 cs)
     = map_option Hash \<circ> foldl specApply m cs"
  by (induction cs arbitrary: m) (simp_all add: foldChange_specApply)

lemma written_files:
  assumes "list_all
       (\<lambda>f. case written f of
               None \<Rightarrow> textFiles st f = None
             | Some c \<Rightarrow> encodable c \<and> textFiles st f = Some (writeChanges c)) fs"
  shows "concat (map (\<lambda>f. case textFiles st f of None \<Rightarrow> [] | Some t \<Rightarrow> [parseChanges t]) fs)
       = map changesV6 (concat (map (\<lambda>f. case written f of None \<Rightarrow> [] | Some c \<Rightarrow> [c]) fs))"
  using assms
proof (induction fs)
  case Nil
  then show ?case by simp
next
  case (Cons f fs)
  show ?case
  proof (cases "written f")
    case None
    then show ?thesis using Cons by simp
  next
    case (Some c)
    then have e: "encodable c" and t: "textFiles st f = Some (writeChanges c)"
      using Cons.prems by simp_all
    have "parseChanges (writeChanges c) = changesV6 c"
      using parseChanges_writeChanges [OF e] by (simp add: changesV6_def)
    then show ?thesis using Cons Some t by simp
  qed
qed

lemma changesOf_written:
  assumes "holdsWritten st written dmn s"
  shows "changesOf st dmn s = map changesV6 (writtenChanges st written dmn s)"
proof (cases "domains s dmn")
  case None
  then show ?thesis by (simp add: changesOf_def writtenChanges_def)
next
  case (Some dd)
  have "list_all
       (\<lambda>f. case written f of
               None \<Rightarrow> textFiles st f = None
             | Some c \<Rightarrow> encodable c \<and> textFiles st f = Some (writeChanges c))
       (case snapshots dd of None \<Rightarrow> [] | Some fs \<Rightarrow> fs)"
    using assms Some by (simp add: holdsWritten_def snapshotFiles_def)
  from written_files [OF this] show ?thesis
    using Some by (simp add: changesOf_def writtenChanges_def split: option.splits)
qed

lemma changesOf_written_all:
  assumes "\<forall>s \<in> set ss. holdsWritten st written dmn s"
  shows "concat (map (changesOf st dmn) ss)
       = map changesV6 (concat (map (writtenChanges st written dmn) ss))"
  using assms by (induction ss) (simp_all add: changesOf_written)

lemma loadDigest_specDigest:
  assumes "\<forall>s \<in> set (uptoDate tdate snaps). legacyLoads st dmn s"
    and "\<forall>s \<in> set (uptoDate tdate snaps). holdsWritten st written dmn s"
  shows "loadDigest st snaps dmn tdate
       = Inr (map_option Hash \<circ> specDigest st written snaps dmn tdate)"
proof -
  have e: "(Map.empty :: digest) = map_option Hash \<circ> Map.empty" by (simp add: fun_eq_iff)
  have "loadDigest st snaps dmn tdate
      = Inr (foldl foldChange Map.empty
               (map changesV6 (concat (map (writtenChanges st written dmn) (uptoDate tdate snaps)))))"
    unfolding loadDigest_def
    using loadDigestLoop_fold [OF assms(1)] changesOf_written_all [OF assms(2)] by simp
  also have "\<dots> = Inr (map_option Hash \<circ> specDigest st written snaps dmn tdate)"
    unfolding specDigest_def by (subst e) (simp only: foldl_specApply)
  finally show ?thesis .
qed

text \<open>
  Claim C1. For every snapshot chain and every optional target date, \<open>loadDigest\<close>
  returns the map from id to content hash that results from folding the snapshots in
  array order, starting from the empty map: each change set inserts its added entries,
  then its updated entries (so a later entry for an id replaces an earlier one), then
  deletes its removed ids; with a target date the fold stops after the first snapshot
  whose date equals it. The legacy files the fold reaches are taken to be readable; an
  incremental file that cannot be read contributes nothing. The first part states this
  for the entries the files hold, whatever their text. The second part ties these
  entries to what the backup wrote: when each readable incremental file is what
  \<open>writeChanges\<close> produces for a change set the line format can hold, the result is the
  digest of the specification, computed from these change sets and the legacy ones with
  no file parsed.
\<close>

theorem loadDigest_folds_chain:
  assumes "\<forall>s \<in> set (uptoDate tdate snaps). legacyLoads st dmn s"
  shows "loadDigest st snaps dmn tdate =
           Inr (foldl foldChange Map.empty
                  (concat (map (changesOf st dmn) (uptoDate tdate snaps))))
       \<and> ((\<forall>s \<in> set (uptoDate tdate snaps). holdsWritten st written dmn s) \<longrightarrow>
            loadDigest st snaps dmn tdate
              = Inr (map_option Hash \<circ> specDigest st written snaps dmn tdate))"
proof (intro conjI impI)
  show "loadDigest st snaps dmn tdate =
           Inr (foldl foldChange Map.empty
                  (concat (map (changesOf st dmn) (uptoDate tdate snaps))))"
    unfolding loadDigest_def by (rule loadDigestLoop_fold [OF assms])
next
  assume "\<forall>s \<in> set (uptoDate tdate snaps). holdsWritten st written dmn s"
  with assms show "loadDigest st snaps dmn tdate
              = Inr (map_option Hash \<circ> specDigest st written snaps dmn tdate)"
    by (rule loadDigest_specDigest)
qed

lemma exChain_upto: "uptoDate (Some 20) exChain = take 2 exChain"
  by (simp add: exChain_def)

lemma exChain_legacy:
  "\<forall>s \<in> set (uptoDate (Some 20) exChain). legacyLoads exStorage ''tx'' s"
  by (simp add: exChain_upto) (simp add: exChain_def exStorage_def legacyLoads_def)

lemma exWritten_f1:
  "writeChanges \<lparr>added = [(''a'', ''h1''), (''b'', ''h2'')], updated = [], removed = []\<rparr>
     = ''2'' @ [CHR 0x0A] @ ''a;h1'' @ [CHR 0x0A] @ ''b;h2'' @ [CHR 0x0A]
       @ ''0'' @ [CHR 0x0A] @ ''0'' @ [CHR 0x0A]"
  by code_simp

lemma exWritten_f2:
  "writeChanges \<lparr>added = [], updated = [(''a'', ''h3'')], removed = [''b'']\<rparr>
     = ''0'' @ [CHR 0x0A] @ ''1'' @ [CHR 0x0A] @ ''a;h3'' @ [CHR 0x0A]
       @ ''1'' @ [CHR 0x0A] @ ''b'' @ [CHR 0x0A]"
  by code_simp

lemma exChain_written:
  "\<forall>s \<in> set (uptoDate (Some 20) exChain). holdsWritten exStorage exWritten ''tx'' s"
  unfolding exChain_upto
  by (simp add: exChain_def holdsWritten_def snapshotFiles_def exWritten_def exStorage_def
      exWritten_f1 exWritten_f2 encodable_def fieldSafe_def lineSafe_def)

lemma exChain_specDigest:
  "specDigest exStorage exWritten exChain ''tx'' (Some 20) = [''z'' \<mapsto> ''h0'', ''a'' \<mapsto> ''h3'']"
  unfolding specDigest_def exChain_upto
  by (auto simp: exChain_def writtenChanges_def exWritten_def exStorage_def specApply_def
      fun_eq_iff)

theorem loadDigest_folds_chain_witness:
  "list_all (legacyLoads exStorage ''tx'') (uptoDate (Some 20) exChain)
   \<and> list_all (holdsWritten exStorage exWritten ''tx'') (uptoDate (Some 20) exChain)
   \<and> loadDigest exStorage exChain ''tx'' (Some 20)
       = Inr [''z'' \<mapsto> Hash ''h0'', ''a'' \<mapsto> Hash ''h3'']"
proof -
  have m: "map_option Hash \<circ> [''z'' \<mapsto> ''h0'', ''a'' \<mapsto> ''h3'']
         = [''z'' \<mapsto> Hash ''h0'', ''a'' \<mapsto> Hash ''h3'']"
    by (auto simp: fun_eq_iff)
  from loadDigest_folds_chain [OF exChain_legacy, of exWritten] exChain_written
  have "loadDigest exStorage exChain ''tx'' (Some 20)
       = Inr (map_option Hash \<circ> specDigest exStorage exWritten exChain ''tx'' (Some 20))"
    by blast
  then show ?thesis
    using exChain_legacy exChain_written
    by (simp only: exChain_specDigest m list_all_iff)
qed

section \<open>The round trip of a change set\<close>

text \<open>
  Claim C2, as stated: writing any change set with \<open>writeChanges\<close> and parsing the file
  the way \<open>loadDigest\<close> does gives back its added entries, its updated entries and its
  removed ids. It fails for an id that contains a semicolon: the added entry
  \<open>a;b \<mapsto> h\<close> is written as the line \<open>a;b;h\<close> and read back as \<open>a \<mapsto> b\<close>.
\<close>

theorem writeChanges_roundtrip_counterexample:
  "parseChanges (writeChanges \<lparr>added = [(''a;b'', ''h'')], updated = [], removed = []\<rparr>)
     = ([(''a'', Hash ''b'')], [], [])
   \<and> parseChanges (writeChanges \<lparr>added = [(''a;b'', ''h'')], updated = [], removed = []\<rparr>)
     \<noteq> (hashed [(''a;b'', ''h'')], hashed [], [])"
  by code_simp

text \<open>
  Claim C2, amended. For a change set in which no id or hash of an added or updated
  entry contains a line feed or a semicolon and no removed id contains a line feed, the
  file \<open>writeChanges\<close> produces consists of the count of added entries, that many
  \<open>id;hash\<close> lines, the count of updated entries, that many \<open>id;hash\<close> lines, the count of
  removed ids and that many id lines, and parsing it the way \<open>loadDigest\<close> does yields
  exactly the added entries, the updated entries and the removed ids, in their order.
\<close>

theorem writeChanges_roundtrip:
  assumes "encodable changes"
  shows "parseChanges (writeChanges changes)
           = (hashed (added changes), hashed (updated changes), removed changes)
         \<and> splitStr CHR 0x0A (writeChanges changes)
           = showNat (length (added changes)) # map pairBody (added changes)
             @ showNat (length (updated changes)) # map pairBody (updated changes)
             @ showNat (length (removed changes)) # removed changes @ [[]]"
  using assms by (rule parseChanges_writeChanges)

lemma exChanges_encodable: "encodable exChanges"
  by (simp add: exChanges_def encodable_def fieldSafe_def lineSafe_def)

theorem writeChanges_roundtrip_witness:
  "encodable exChanges
   \<and> parseChanges (writeChanges exChanges)
       = ([(''a'', Hash ''h1''), (''b'', Hash ''h2'')], [(''c'', Hash ''h3'')], [''x;1'', ''y''])"
  using writeChanges_roundtrip [OF exChanges_encodable] exChanges_encodable
  by (simp add: exChanges_def hashed_def)

section \<open>Chunk cursor exhaustion\<close>

lemma fillChunk_props:
  "fillChunk est sz acc rem n = (ds, fin, it) \<Longrightarrow>
     ds @ remaining it = acc @ rem
     \<and> (fin \<longrightarrow> remaining it = [])
     \<and> (sz < chunkSize \<longrightarrow> \<not> fin \<longrightarrow> length (remaining it) < length rem)
     \<and> length (remaining it) \<le> length rem
     \<and> n \<le> nextCalls it"
proof (induction est sz acc rem n arbitrary: ds fin it rule: fillChunk.induct)
  case (1 est sz acc n)
  then show ?case by (auto split: if_splits)
next
  case (2 est sz acc doc rest n)
  show ?case
  proof (cases "sz < chunkSize")
    case True
    then have "fillChunk est (sz + est doc) (acc @ [doc]) rest (n + 1) = (ds, fin, it)"
      using "2.prems" by simp
    from "2.IH" [OF True this] show ?thesis by auto
  next
    case False
    then show ?thesis using "2.prems" by auto
  qed
qed

lemma loadChunk_finished:
  assumes "chunkInfo ops i = Some chunk" "finished chunk"
  shows "loadChunk storageFind est ops dmn (Some i) rc =
           (ops\<lparr>chunkInfo := (chunkInfo ops)(i \<mapsto> chunk\<lparr>index := index chunk + 1\<rparr>)\<rparr>,
            \<lparr>resIdx = i, docs = [], resFinished = True\<rparr>)"
  using assms by (simp add: loadChunk_def)

lemma loadChunk_step:
  assumes "loadChunk storageFind est ops dmn (Some i) rc = (ops1, r)"
  shows "docs r @ pending storageFind ops1 dmn i rc = pending storageFind ops dmn i rc
         \<and> (resFinished r \<longrightarrow> pending storageFind ops1 dmn i rc = [])
         \<and> (\<not> resFinished r \<longrightarrow> length (pending storageFind ops1 dmn i rc) < length (pending storageFind ops dmn i rc))
         \<and> (\<exists>ch. chunkInfo ops1 i = Some ch \<and> finished ch = resFinished r)"
proof (cases "chunkInfo ops i")
  case None
  obtain ds fin it where f: "fillChunk est 0 [] (storageFind dmn rc) 0 = (ds, fin, it)"
    by (cases "fillChunk est 0 [] (storageFind dmn rc) 0") auto
  from fillChunk_props [OF f] show ?thesis
    using assms None f
    by (auto simp: loadChunk_def readChunk_def pending_def chunkSize_def)
next
  case (Some chunk)
  show ?thesis
  proof (cases "finished chunk")
    case True
    then show ?thesis using assms Some by (auto simp: loadChunk_def pending_def)
  next
    case False
    obtain ds fin it where f:
      "fillChunk est 0 [] (remaining (iterator chunk)) (nextCalls (iterator chunk)) = (ds, fin, it)"
      by (cases "fillChunk est 0 [] (remaining (iterator chunk)) (nextCalls (iterator chunk))") auto
    from fillChunk_props [OF f] show ?thesis
      using assms Some False f
      by (auto simp: loadChunk_def readChunk_def pending_def chunkSize_def Let_def)
  qed
qed

lemma loadChunkRepeat_exhaust:
  "length (pending storageFind ops dmn i rc) < n \<Longrightarrow>
   loadChunkRepeat n storageFind est ops dmn i rc = (ops', rs) \<Longrightarrow>
     length rs = n \<and> resFinished (last rs) \<and> concat (map docs rs) = pending storageFind ops dmn i rc
     \<and> (\<exists>ch. chunkInfo ops' i = Some ch \<and> finished ch)"
proof (induction n arbitrary: ops ops' rs)
  case 0
  then show ?case by simp
next
  case (Suc n)
  obtain ops1 r where s: "loadChunk storageFind est ops dmn (Some i) rc = (ops1, r)"
    by (cases "loadChunk storageFind est ops dmn (Some i) rc") auto
  obtain ops2 rs' where t: "loadChunkRepeat n storageFind est ops1 dmn i rc = (ops2, rs')"
    by (cases "loadChunkRepeat n storageFind est ops1 dmn i rc") auto
  have rs: "rs = r # rs'" "ops' = ops2" using Suc.prems(2) s t by auto
  note st = loadChunk_step [OF s]
  show ?case
  proof (cases "n = 0")
    case True
    then have p: "pending storageFind ops dmn i rc = []" using Suc.prems(1) by simp
    have "rs' = []" "ops2 = ops1" using t True by auto
    moreover have "resFinished r"
      using st p by auto
    ultimately show ?thesis using rs st p True by auto
  next
    case False
    have "length (pending storageFind ops1 dmn i rc) < n"
      using st Suc.prems(1) False by (cases "resFinished r") auto
    from Suc.IH [OF this t] have ih: "length rs' = n" "resFinished (last rs')"
      "concat (map docs rs') = pending storageFind ops1 dmn i rc"
      "\<exists>ch. chunkInfo ops2 i = Some ch \<and> finished ch" by auto
    then have "rs' \<noteq> []" using False by auto
    then show ?thesis using rs ih st by auto
  qed
qed

text \<open>
  Claim C3. For every domain and every cursor index: a \<open>loadChunk\<close> call delivers the
  next documents of the cursor, at least one unless it reports \<open>finished\<close>; calling
  \<open>loadChunk\<close> with the same index more often than the cursor has documents left ends
  with \<open>finished = true\<close>, all documents delivered in order; and a call on a cursor that
  has finished returns at once with no documents and \<open>finished = true\<close>, changing only
  the call counter of the cursor and leaving its iterator as it was.
\<close>

theorem loadChunk_exhaustion:
  "(loadChunk storageFind est ops dmn (Some i) rc = (ops1, r) \<longrightarrow>
      docs r @ pending storageFind ops1 dmn i rc = pending storageFind ops dmn i rc
      \<and> (\<not> resFinished r \<longrightarrow> docs r \<noteq> []))
   \<and> (length (pending storageFind ops dmn i rc) < n \<longrightarrow>
      length (snd (loadChunkRepeat n storageFind est ops dmn i rc)) = n
      \<and> resFinished (last (snd (loadChunkRepeat n storageFind est ops dmn i rc)))
      \<and> concat (map docs (snd (loadChunkRepeat n storageFind est ops dmn i rc)))
          = pending storageFind ops dmn i rc)
   \<and> (chunkInfo ops i = Some chunk \<and> finished chunk \<longrightarrow>
      loadChunk storageFind est ops dmn (Some i) rc =
        (ops\<lparr>chunkInfo := (chunkInfo ops)(i \<mapsto> chunk\<lparr>index := index chunk + 1\<rparr>)\<rparr>,
         \<lparr>resIdx = i, docs = [], resFinished = True\<rparr>))"
proof (intro conjI impI)
  assume s: "loadChunk storageFind est ops dmn (Some i) rc = (ops1, r)"
  note st = loadChunk_step [OF s]
  from st show "docs r @ pending storageFind ops1 dmn i rc = pending storageFind ops dmn i rc"
    by simp
  assume "\<not> resFinished r"
  with st have "length (pending storageFind ops1 dmn i rc) < length (pending storageFind ops dmn i rc)"
    by simp
  moreover from st have "length (pending storageFind ops dmn i rc)
      = length (docs r) + length (pending storageFind ops1 dmn i rc)"
    by (metis length_append)
  ultimately show "docs r \<noteq> []" by auto
next
  assume n: "length (pending storageFind ops dmn i rc) < n"
  obtain ops' rs where e: "loadChunkRepeat n storageFind est ops dmn i rc = (ops', rs)"
    by (cases "loadChunkRepeat n storageFind est ops dmn i rc") auto
  note x = loadChunkRepeat_exhaust [OF n e]
  from x e show "length (snd (loadChunkRepeat n storageFind est ops dmn i rc)) = n" by simp
  from x e show "resFinished (last (snd (loadChunkRepeat n storageFind est ops dmn i rc)))" by simp
  from x e show "concat (map docs (snd (loadChunkRepeat n storageFind est ops dmn i rc)))
          = pending storageFind ops dmn i rc" by simp
next
  assume "chunkInfo ops i = Some chunk \<and> finished chunk"
  then show "loadChunk storageFind est ops dmn (Some i) rc =
        (ops\<lparr>chunkInfo := (chunkInfo ops)(i \<mapsto> chunk\<lparr>index := index chunk + 1\<rparr>)\<rparr>,
         \<lparr>resIdx = i, docs = [], resFinished = True\<rparr>)"
    by (simp add: loadChunk_finished)
qed

lemma exOps_pending: "length (pending (\<lambda>d r. [5, 6, 7 :: nat]) exOps ''tx'' 1 None) < 4"
  by (simp add: pending_def exOps_def)

lemma exOps_finished:
  "chunkInfo exOps 0 = Some \<lparr>idx = 0, index = 2, finished = True,
                                 iterator = \<lparr>remaining = [], nextCalls = 4\<rparr>\<rparr>
   \<and> finished \<lparr>idx = 0, index = 2, finished = True,
                iterator = \<lparr>remaining = [], nextCalls = (4::nat)\<rparr>\<rparr>"
  by (simp add: exOps_def)

theorem loadChunk_exhaustion_witness:
  "resFinished (last (snd (loadChunkRepeat 4 (\<lambda>d r. [5, 6, 7 :: nat]) (\<lambda>d. 1024 * 1024) exOps ''tx'' 1 None)))
   \<and> concat (map docs (snd (loadChunkRepeat 4 (\<lambda>d r. [5, 6, 7 :: nat]) (\<lambda>d. 1024 * 1024) exOps ''tx'' 1 None)))
       = [5, 6, 7]
   \<and> snd (loadChunk (\<lambda>d r. [5, 6, 7 :: nat]) (\<lambda>d. 1024 * 1024) exOps ''tx'' (Some 0) None)
       = \<lparr>resIdx = 0, docs = [], resFinished = True\<rparr>"
  using loadChunk_exhaustion [of "\<lambda>d r. [5, 6, 7 :: nat]" "\<lambda>d. 1024 * 1024" exOps "''tx''" 1 None
      "fst (loadChunk (\<lambda>d r. [5, 6, 7 :: nat]) (\<lambda>d. 1024 * 1024) exOps ''tx'' (Some 1) None)"
      "snd (loadChunk (\<lambda>d r. [5, 6, 7 :: nat]) (\<lambda>d. 1024 * 1024) exOps ''tx'' (Some 1) None)"
      4
      "\<lparr>idx = 0, index = 2, finished = True, iterator = \<lparr>remaining = [], nextCalls = 4\<rparr>\<rparr>"]
    loadChunk_exhaustion [of "\<lambda>d r. [5, 6, 7 :: nat]" "\<lambda>d. 1024 * 1024" exOps "''tx''" 0 None
      "fst (loadChunk (\<lambda>d r. [5, 6, 7 :: nat]) (\<lambda>d. 1024 * 1024) exOps ''tx'' (Some 0) None)"
      "snd (loadChunk (\<lambda>d r. [5, 6, 7 :: nat]) (\<lambda>d. 1024 * 1024) exOps ''tx'' (Some 0) None)"
      4
      "\<lparr>idx = 0, index = 2, finished = True, iterator = \<lparr>remaining = [], nextCalls = 4\<rparr>\<rparr>"]
    exOps_pending exOps_finished
  by (simp add: pending_def exOps_def)

section \<open>Chunked response splitting\<close>

lemma sendChunks_unfold:
  "data \<noteq> [] \<Longrightarrow> \<not> isClosed cid \<Longrightarrow>
   sendChunks isClosed meta tot lm r cid data =
     \<lparr>frameResult =
        (if drop (itemChunkCurrent r data) data = []
         then (toFindResult meta (take (itemChunkCurrent r data) data))
                \<lparr>total := (case tot of None \<Rightarrow> 0 | Some t \<Rightarrow> t), lookupMap := lm\<rparr>
         else toFindResult meta (take (itemChunkCurrent r data) data)),
      frameIndex = cid,
      frameFinal = (drop (itemChunkCurrent r data) data = [])\<rparr>
     # sendChunks isClosed meta tot lm r (cid + 1) (drop (itemChunkCurrent r data) data)"
  by (subst sendChunks.simps) (simp add: itemChunkCurrent_def Let_def)

lemma itemChunkCurrent_bounds:
  "data \<noteq> [] \<Longrightarrow> 0 < itemChunkCurrent r data \<and> itemChunkCurrent r data \<le> length data"
  by (auto simp: itemChunkCurrent_def)

lemma itemChunkCurrent_last:
  "drop (itemChunkCurrent r data) data = [] \<Longrightarrow> data \<noteq> [] \<Longrightarrow>
     itemChunkCurrent r data = length data \<and> 2 * length data < 3 * (r + 1)"
  by (auto simp: itemChunkCurrent_def split: if_splits)

lemma itemChunkCurrent_inner:
  "drop (itemChunkCurrent r data) data \<noteq> [] \<Longrightarrow> itemChunkCurrent r data = r + 1"
  by (auto simp: itemChunkCurrent_def split: if_splits)

lemma sendChunks_index:
  assumes "\<forall>k. \<not> isClosed k"
  shows "map frameIndex (sendChunks isClosed meta tot lm r cid data)
           = [cid ..< cid + length (sendChunks isClosed meta tot lm r cid data)]"
proof (induction "length data" arbitrary: data cid rule: less_induct)
  case less
  show ?case
  proof (cases "data = []")
    case True
    then show ?thesis by (subst (1 2) sendChunks.simps) simp
  next
    case False
    let ?k = "itemChunkCurrent r data"
    have open_cid: "\<not> isClosed cid" using assms by simp
    have u: "sendChunks isClosed meta tot lm r cid data =
     \<lparr>frameResult =
        (if drop ?k data = []
         then (toFindResult meta (take ?k data))
                \<lparr>total := (case tot of None \<Rightarrow> 0 | Some t \<Rightarrow> t), lookupMap := lm\<rparr>
         else toFindResult meta (take ?k data)),
      frameIndex = cid,
      frameFinal = (drop ?k data = [])\<rparr>
     # sendChunks isClosed meta tot lm r (cid + 1) (drop ?k data)"
      using False open_cid by (rule sendChunks_unfold)
    have lt: "length (drop ?k data) < length data"
      using itemChunkCurrent_bounds [OF False, of r] False by simp
    let ?fs = "sendChunks isClosed meta tot lm r (cid + 1) (drop ?k data)"
    have "map frameIndex ?fs = [cid + 1 ..< cid + 1 + length ?fs]"
      by (rule less.hyps [OF lt])
    moreover have "cid + 1 + length ?fs = cid + Suc (length ?fs)" by simp
    ultimately have ih: "map frameIndex ?fs = [Suc cid ..< cid + Suc (length ?fs)]"
      by (simp only: Suc_eq_plus1)
    have c: "[cid ..< cid + Suc (length ?fs)] = cid # [Suc cid ..< cid + Suc (length ?fs)]"
      by (rule upt_conv_Cons) simp
    have "map frameIndex (sendChunks isClosed meta tot lm r cid data) = cid # map frameIndex ?fs"
      unfolding u by simp
    moreover have "length (sendChunks isClosed meta tot lm r cid data) = Suc (length ?fs)"
      unfolding u by simp
    ultimately show ?thesis using ih c by (simp only:)
  qed
qed

lemma sendChunks_wellChunked:
  assumes "\<forall>k. \<not> isClosed k"
  shows "data \<noteq> [] \<Longrightarrow>
         wellChunked meta tot lm (r + 1) cid data (sendChunks isClosed meta tot lm r cid data)"
proof (induction "length data" arbitrary: data cid rule: less_induct)
  case less
  let ?k = "itemChunkCurrent r data"
  let ?rest = "drop ?k data"
  note b = itemChunkCurrent_bounds [OF less.prems, of r]
  have open_cid: "\<not> isClosed cid" using assms by simp
  note ix = sendChunks_index [OF assms, of meta tot lm r cid data]
  have u: "sendChunks isClosed meta tot lm r cid data =
     \<lparr>frameResult =
        (if drop ?k data = []
         then (toFindResult meta (take ?k data))
                \<lparr>total := (case tot of None \<Rightarrow> 0 | Some t \<Rightarrow> t), lookupMap := lm\<rparr>
         else toFindResult meta (take ?k data)),
      frameIndex = cid,
      frameFinal = (drop ?k data = [])\<rparr>
     # sendChunks isClosed meta tot lm r (cid + 1) (drop ?k data)"
    using less.prems open_cid by (rule sendChunks_unfold)
  show ?case
  proof (cases "?rest = []")
    case True
    have e: "sendChunks isClosed meta tot lm r (cid + 1) ?rest = []"
      using True by (subst sendChunks.simps) simp
    note l = itemChunkCurrent_last [OF True less.prems]
    have tk: "take ?k data = data" using l by simp
    show ?thesis
      unfolding wellChunked_def using ix unfolding u e using True l less.prems
      by (simp add: toFindResult_def tk)
  next
    case False
    have lt: "length ?rest < length data" using b less.prems by simp
    note ih = less.hyps [OF lt False, of "cid + 1"]
    note inner = itemChunkCurrent_inner [OF False]
    let ?fs = "sendChunks isClosed meta tot lm r (cid + 1) ?rest"
    from ih have ne: "?fs \<noteq> []" by (simp add: wellChunked_def)
    show ?thesis
      unfolding wellChunked_def
    proof (intro conjI)
      show "map frameIndex (sendChunks isClosed meta tot lm r cid data) =
        [cid..<cid + length (sendChunks isClosed meta tot lm r cid data)]" by (rule ix)
    qed (use ih False ne inner b in \<open>simp_all add: u wellChunked_def toFindResult_def\<close>)
  qed
qed

lemma sendChunks_nil: "sendChunks isClosed meta tot lm r cid [] = []"
  by (subst sendChunks.simps) simp

lemma smallDoc_size: "dataSize smallDoc [10, 11, 12, 13, 14] = 40961"
  by (simp add: dataSize_def smallDoc_def)

lemma smallDoc_itemChunk: "itemChunkOf smallDoc [10, 11, 12, 13, 14, 15, 16, 17, 18, 19, 20] 32768 = 5"
  by (simp add: itemChunkOf_def dataSize_def smallDoc_def mathRound_def)

lemma smallDoc_current_last: "itemChunkCurrent 4 [15, 16, 17, 18, 19, 20 :: nat] = 6"
  by (simp add: itemChunkCurrent_def)

lemma smallDoc_current_first: "itemChunkCurrent 4 [10, 11, 12, 13, 14, 15, 16, 17, 18, 19, 20 :: nat] = 5"
  by (simp add: itemChunkCurrent_def)

lemma smallDoc_frames_last: "sendChunks staysOpen lengthMeta None None 4 cid [15, 16, 17, 18, 19, 20 :: nat]
  = [\<lparr>frameResult = \<lparr>items = [15, 16, 17, 18, 19, 20], total = 0, lookupMap = None\<rparr>,
             frameIndex = cid, frameFinal = True\<rparr>]"
  by (subst sendChunks_unfold) (simp_all add: smallDoc_current_last staysOpen_def sendChunks_nil toFindResult_def lengthMeta_def)

lemma smallDoc_frames: "sendChunks staysOpen lengthMeta None None 4 cid [10, 11, 12, 13, 14, 15, 16, 17, 18, 19, 20 :: nat]
  = [\<lparr>frameResult = \<lparr>items = [10, 11, 12, 13, 14], total = 5, lookupMap = None\<rparr>,
             frameIndex = cid, frameFinal = False\<rparr>,
     \<lparr>frameResult = \<lparr>items = [15, 16, 17, 18, 19, 20], total = 0, lookupMap = None\<rparr>,
             frameIndex = cid + 1, frameFinal = True\<rparr>]"
  by (subst sendChunks_unfold) (simp_all add: smallDoc_current_first smallDoc_frames_last staysOpen_def toFindResult_def lengthMeta_def)

text \<open>
  Claim C9, as stated, bounds the size of every frame by the chunk limit. It fails with
  the limit of 32 KB the callers pass and eleven documents of 8191 characters each: the
  average is 8192, \<^verbatim>\<open>itemChunk\<close> is \<open>32768 / 8192 + 1 = 5\<close>, and the first frame carries
  five documents, whose JSON text alone is 40961 characters long.
\<close>

theorem handleSend_frame_size_counterexample:
  "handleSend staysOpen lengthMeta smallDoc
     (ArrayResult [10, 11, 12, 13, 14, 15, 16, 17, 18, 19, 20] None None
        :: (nat, string, unit) ResultValue)
     32768
   = [Chunk \<lparr>frameResult = \<lparr>items = [10, 11, 12, 13, 14], total = 5, lookupMap = None\<rparr>,
             frameIndex = 1, frameFinal = False\<rparr>,
      Chunk \<lparr>frameResult = \<lparr>items = [15, 16, 17, 18, 19, 20], total = 0, lookupMap = None\<rparr>,
             frameIndex = 2, frameFinal = True\<rparr>]
   \<and> dataSize smallDoc [10, 11, 12, 13, 14] = 40961
   \<and> \<not> dataSize smallDoc [10, 11, 12, 13, 14] \<le> 32768"
  by (simp add: handleSend_def smallDoc_itemChunk smallDoc_frames smallDoc_size numeral_2_eq_2)

text \<open>
  Claim C9, amended. For every response whose result is an array of more than one
  element, sent with a positive chunk limit over a socket that stays open, the result is
  delivered as chunk frames with the indexes 1, 2, 3 and so on; the concatenation of the
  frames' result arrays is the original array; \<open>final\<close> is set on the last frame and on no
  other; the last frame carries the total of the original result (0 when it has none)
  and its lookup map, and every other frame is what \<^verbatim>\<open>toFindResult\<close> makes of its items;
  every frame but the last holds \<^verbatim>\<open>itemChunk\<close> items, where \<^verbatim>\<open>itemChunk\<close> is the chunk
  limit divided by the average size of an item, rounded, plus one, and the last frame
  holds at least one item and fewer than one and a half times \<^verbatim>\<open>itemChunk\<close>.
\<close>

theorem handleSend_chunks:
  assumes "1 < length data" and "0 < chunkLimit" and "\<forall>k. \<not> isClosed k"
  shows "\<exists>fs. handleSend isClosed meta jsonSize (ArrayResult data tot lm) chunkLimit = map Chunk fs
           \<and> wellChunked meta tot lm (itemChunkOf jsonSize data chunkLimit) 1 data fs"
proof -
  let ?r = "itemChunkOf jsonSize data chunkLimit - 1"
  have ne: "data \<noteq> []" using assms(1) by auto
  have ic: "itemChunkOf jsonSize data chunkLimit = ?r + 1"
    by (simp add: itemChunkOf_def Let_def)
  have "wellChunked meta tot lm (?r + 1) 1 data (sendChunks isClosed meta tot lm ?r 1 data)"
    by (rule sendChunks_wellChunked [OF assms(3) ne])
  then have "wellChunked meta tot lm (itemChunkOf jsonSize data chunkLimit) 1 data
               (sendChunks isClosed meta tot lm ?r 1 data)"
    using ic by simp
  moreover have "handleSend isClosed meta jsonSize (ArrayResult data tot lm) chunkLimit
                   = map Chunk (sendChunks isClosed meta tot lm ?r 1 data)"
    using assms(1,2) by (simp add: handleSend_def)
  ultimately show ?thesis by blast
qed

lemma staysOpen_all: "\<forall>k. \<not> staysOpen k"
  by (simp add: staysOpen_def)

theorem handleSend_chunks_witness:
  "1 < length [10, 11, 12, 13, 14, 15, 16, 17, 18, 19, 20 :: nat] \<and> (0::nat) < 32768
   \<and> \<not> staysOpen 1
   \<and> (\<exists>fs. handleSend staysOpen lengthMeta smallDoc
              (ArrayResult [10, 11, 12, 13, 14, 15, 16, 17, 18, 19, 20] (Some 50) (Some ''lm'')
                 :: (nat, string, unit) ResultValue) 32768 = map Chunk fs
            \<and> wellChunked lengthMeta (Some 50) (Some ''lm'')
                 (itemChunkOf smallDoc [10, 11, 12, 13, 14, 15, 16, 17, 18, 19, 20] 32768) 1
                 [10, 11, 12, 13, 14, 15, 16, 17, 18, 19, 20] fs)"
proof -
  have h1: "1 < length [10, 11, 12, 13, 14, 15, 16, 17, 18, 19, 20 :: nat]" by simp
  have h2: "(0::nat) < 32768" by simp
  have h3: "\<not> staysOpen 1" by (simp add: staysOpen_def)
  from handleSend_chunks [OF h1 h2 staysOpen_all] h1 h2 h3 show ?thesis by blast
qed

section \<open>The version gate of \<^verbatim>\<open>addSession\<close>\<close>

lemma exAccounts_resolve:
  "resolveInfo (exAccounts c) ''http://accounts'' tk 0 = Inr (Some (exInfo c))"
  by (simp add: resolveInfo.simps [of _ _ _ 0] resolveInfo.simps [of _ _ _ "Suc 0"]
      resolveInfo.simps [of _ _ _ "Suc (Suc 0)"] exAccounts_def)

text \<open>
  Claim C5, as stated, has \<open>addSession\<close> return the upgrade-required value whenever the
  server has a model version, the resolved workspace info carries a different one and
  the token has neither the upgrade nor the backup claim. It fails for a workspace in
  its creation phase reached by a token that is not the system account's: the check of
  \<^verbatim>\<open>creating\<close> comes first and the call returns an error value.
\<close>

theorem addSession_version_gate_counterexample:
  "addSession ''system@example.com'' exVersionToString ''0.6.2'' (exAccounts True) exOpenSession
     ''http://accounts'' exToken
   = ErrorResult (DuringCreation ''user@example.com'' ''ws1'')
   \<and> version (exInfo True) = Some ''0.6.1''
   \<and> extra exToken ''model'' = None \<and> extra exToken ''mode'' = None"
  by (simp add: addSession_def exAccounts_resolve exInfo_def exToken_def)

text \<open>
  Claim C5, amended. For every \<open>addSession\<close> call whose workspace info resolves and is
  not that of a workspace in its creation phase reached by another account than the
  system account: when the server has a configured model version, the info carries a
  version, the two differ and the token carries neither the upgrade claim
  (\<open>extra.model = upgrade\<close>) nor the backup claim (\<open>extra.mode = backup\<close>), \<open>addSession\<close>
  returns the upgrade-required value with the upgrade progress of the info, without
  opening a session and without throwing; with either claim present the call goes on to
  open the session whatever the versions are.
\<close>

theorem addSession_version_gate:
  assumes "resolveInfo getWorkspaceInfo accountsUrl token 0 = Inr (Some wi)"
    and "\<not> (creating wi = Some True \<and> email token \<noteq> systemAccountEmail)"
  shows "(modelVersion \<noteq> [] \<and> version wi = Some v \<and> versionToString v \<noteq> modelVersion
          \<and> extra token ''model'' \<noteq> Some ''upgrade'' \<and> extra token ''mode'' \<noteq> Some ''backup''
          \<longrightarrow> addSession systemAccountEmail versionToString modelVersion getWorkspaceInfo
                openSession accountsUrl token = UpgradeRequired (upgrade wi))
       \<and> (extra token ''model'' = Some ''upgrade'' \<or> extra token ''mode'' = Some ''backup''
          \<longrightarrow> addSession systemAccountEmail versionToString modelVersion getWorkspaceInfo
                openSession accountsUrl token = openSession token wi)"
  using assms by (auto simp: addSession_def versionMismatch_def)

lemma exInfo_not_creating:
  "\<not> (creating (exInfo False) = Some True \<and> email tk \<noteq> ''system@example.com'')"
  by (simp add: exInfo_def)

theorem addSession_version_gate_witness:
  "addSession ''system@example.com'' exVersionToString ''0.6.2'' (exAccounts False) exOpenSession
     ''http://accounts'' exToken = UpgradeRequired (Some 7)
   \<and> addSession ''system@example.com'' exVersionToString ''0.6.2'' (exAccounts False) exOpenSession
     ''http://accounts'' exBackupToken = SessionOpened ''user@example.com''"
  using addSession_version_gate [where token = exToken and modelVersion = "''0.6.2''"
      and v = "''0.6.1''" and versionToString = exVersionToString
      and openSession = exOpenSession and systemAccountEmail = "''system@example.com''",
      OF exAccounts_resolve exInfo_not_creating]
    addSession_version_gate [where token = exBackupToken and modelVersion = "''0.6.2''"
      and v = "''0.6.1''" and versionToString = exVersionToString
      and openSession = exOpenSession and systemAccountEmail = "''system@example.com''",
      OF exAccounts_resolve exInfo_not_creating]
  by (simp add: exInfo_def exToken_def exBackupToken_def exVersionToString_def exOpenSession_def)

section \<open>Hang detection\<close>

lemma mapUpdate_keys: "map fst (mapUpdate k f m) = map fst m"
  by (induction m) (auto simp: mapUpdate_def)

lemma mapDelete_keys: "fst ` set (mapDelete k m) = fst ` set m - {k}"
  by (auto simp: mapDelete_def)

lemma map_of_mapDelete: "map_of (mapDelete k m) x = (if x = k then None else map_of m x)"
  by (induction m) (auto simp: mapDelete_def)

lemma registered_socket_inj:
  assumes "registered (s # todo) bySocket" and "e \<in> set todo"
  shows "socket (snd e) \<noteq> socket (snd s)" and "fst e \<noteq> fst s"
proof -
  have d: "fst s \<notin> fst ` set todo" using assms(1) by (simp add: registered_def)
  then show k: "fst e \<noteq> fst s" using assms(2) by (metis imageI)
  have "map_of bySocket (socket (snd s)) = Some (fst s)"
    and "map_of bySocket (socket (snd e)) = Some (fst e)"
    using assms by (auto simp: registered_def list_all_iff)
  then show "socket (snd e) \<noteq> socket (snd s)" using k by auto
qed

lemma registered_tail:
  assumes "registered (s # todo) bySocket"
  shows "registered todo bySocket" and "registered todo (mapDelete (socket (snd s)) bySocket)"
proof -
  show "registered todo bySocket" using assms by (simp add: registered_def)
  show "registered todo (mapDelete (socket (snd s)) bySocket)"
    unfolding registered_def list_all_iff
  proof (intro conjI ballI)
    show "distinct (map fst todo)" using assms by (simp add: registered_def)
    fix e assume e: "e \<in> set todo"
    have "socket (snd e) \<noteq> socket (snd s)" by (rule registered_socket_inj(1) [OF assms e])
    moreover have "map_of bySocket (socket (snd e)) = Some (fst e)"
      using assms e by (auto simp: registered_def list_all_iff)
    ultimately show "map_of (mapDelete (socket (snd s)) bySocket) (socket (snd e)) = Some (fst e)"
      by (simp add: map_of_mapDelete)
  qed
qed

lemma tickSessions_result:
  assumes "registered todo bySocket" and "fst ` set todo \<subseteq> fst ` set wsSessions"
    and "tickSessions sys tick now wsId todo ((wsSessions, bySocket), evs) = ((ws', by'), evs')"
  shows "fst ` set ws' = fst ` set wsSessions - fst ` {e \<in> set todo. hangs sys tick now (snd e)}
       \<and> {sock. SocketClose sock \<in> set evs'}
           = {sock. SocketClose sock \<in> set evs}
             \<union> (\<lambda>e. socket (snd e)) ` {e \<in> set todo. hangs sys tick now (snd e)}
       \<and> (\<forall>sock. map_of by' sock
            = (if sock \<in> (\<lambda>e. socket (snd e)) ` {e \<in> set todo. hangs sys tick now (snd e)}
               then None else map_of bySocket sock))"
  using assms
proof (induction todo arbitrary: wsSessions bySocket evs)
  case Nil
  then show ?case by simp
next
  case (Cons s todo)
  let ?ws1 = "mapUpdate (fst s) (rollCounters tick) wsSessions"
  have k1: "fst ` set ?ws1 = fst ` set wsSessions"
    using mapUpdate_keys [of "fst s" "rollCounters tick" wsSessions]
    by (metis set_map)
  have sub: "fst ` set todo \<subseteq> fst ` set wsSessions" using Cons.prems(2) by auto
  have nk: "fst s \<notin> fst ` set todo" using Cons.prems(1) by (simp add: registered_def)
  show ?case
  proof (cases "hangs sys tick now (snd s)")
    case True
    have reg: "map_of bySocket (socket (snd s)) = Some (fst s)"
      using Cons.prems(1) by (simp add: registered_def)
    have cl: "close (socket (snd s)) (?ws1, bySocket)
              = ((mapDelete (fst s) ?ws1, mapDelete (socket (snd s)) bySocket),
                 [SocketClose (socket (snd s))])"
      by (simp add: close_def reg)
    have keys: "fst ` set (mapDelete (fst s) ?ws1) = fst ` set wsSessions - {fst s}"
      by (simp add: mapDelete_keys k1)
    have flt: "filter (\<lambda>e. fst e \<in> fst ` set (mapDelete (fst s) ?ws1)) todo = todo"
      unfolding keys filter_id_conv using sub nk by (metis DiffI imageI singletonD subsetD)
    have step: "tickSessions sys tick now wsId todo
                  ((mapDelete (fst s) ?ws1, mapDelete (socket (snd s)) bySocket),
                   evs @ [SessionHang wsId (getUser (session (snd s)))] @ [SocketClose (socket (snd s))])
                = ((ws', by'), evs')"
      using Cons.prems(3) True cl flt by (simp add: Let_def)
    have sub': "fst ` set todo \<subseteq> fst ` set (mapDelete (fst s) ?ws1)"
      unfolding keys using sub nk by blast
    note ih = Cons.IH [OF registered_tail(2) [OF Cons.prems(1)] sub' step]
    have H: "{e \<in> set (s # todo). hangs sys tick now (snd e)}
               = insert s {e \<in> set todo. hangs sys tick now (snd e)}"
      using True by auto
    have a: "fst ` set ws' = (fst ` set wsSessions - {fst s})
               - fst ` {e \<in> set todo. hangs sys tick now (snd e)}"
      using ih keys by simp
    have b: "{sock. SocketClose sock \<in> set evs'}
               = ({sock. SocketClose sock \<in> set evs} \<union> {socket (snd s)})
                 \<union> (\<lambda>e. socket (snd e)) ` {e \<in> set todo. hangs sys tick now (snd e)}"
      using ih by (simp add: Collect_disj_eq)
    have c: "map_of by' sock
            = (if sock \<in> (\<lambda>e. socket (snd e)) ` {e \<in> set (s # todo). hangs sys tick now (snd e)}
               then None else map_of bySocket sock)" for sock
      using ih unfolding H by (simp add: map_of_mapDelete)
    have a': "fst ` set ws' = fst ` set wsSessions
               - fst ` {e \<in> set (s # todo). hangs sys tick now (snd e)}"
      unfolding H a by blast
    have b': "{sock. SocketClose sock \<in> set evs'}
               = {sock. SocketClose sock \<in> set evs}
                 \<union> (\<lambda>e. socket (snd e)) ` {e \<in> set (s # todo). hangs sys tick now (snd e)}"
      unfolding H b by blast
    show ?thesis using a' b' c by blast
  next
    case False
    have step: "tickSessions sys tick now wsId todo
                  ((?ws1, bySocket), evs @ quietEvents tick now wsId (snd s)) = ((ws', by'), evs')"
      using Cons.prems(3) False by (simp add: Let_def)
    have sub': "fst ` set todo \<subseteq> fst ` set ?ws1" using sub k1 by simp
    have q: "SocketClose sock \<notin> set (quietEvents tick now wsId (snd s))" for sock
      by (auto simp: quietEvents_def Let_def)
    note ih = Cons.IH [OF registered_tail(1) [OF Cons.prems(1)] sub' step]
    have H: "{e \<in> set (s # todo). hangs sys tick now (snd e)}
               = {e \<in> set todo. hangs sys tick now (snd e)}"
      using False by auto
    have a: "fst ` set ws' = fst ` set wsSessions
               - fst ` {e \<in> set todo. hangs sys tick now (snd e)}"
      using ih k1 by simp
    have b: "{sock. SocketClose sock \<in> set evs'}
               = {sock. SocketClose sock \<in> set evs}
                 \<union> (\<lambda>e. socket (snd e)) ` {e \<in> set todo. hangs sys tick now (snd e)}"
      using ih q by auto
    have c: "map_of by' sock
            = (if sock \<in> (\<lambda>e. socket (snd e)) ` {e \<in> set todo. hangs sys tick now (snd e)}
               then None else map_of bySocket sock)" for sock
      using ih by simp
    show ?thesis unfolding H using a b c by blast
  qed
qed


lemma registered_distinct_sockets:
  assumes "registered ss bySocket" and "e1 \<in> set ss" and "e2 \<in> set ss"
    and "socket (snd e1) = socket (snd e2)"
  shows "e1 = e2"
proof -
  have "map_of bySocket (socket (snd e1)) = Some (fst e1)"
    and "map_of bySocket (socket (snd e2)) = Some (fst e2)"
    using assms(1,2,3) by (auto simp: registered_def list_all_iff)
  then have "fst e1 = fst e2" using assms(4) by simp
  moreover have "distinct (map fst ss)" using assms(1) by (simp add: registered_def)
  ultimately show ?thesis using assms(2,3) by (metis eq_key_imp_eq_value prod.collapse)
qed

lemma tickWorkspace_sessions:
  assumes reg: "registered (sessions w) bySocket"
    and res: "tickWorkspace sys tick now wsId w bySocket = ((w', by'), evs)"
  shows "fst ` set (sessions w') = fst ` set (sessions w)
           - fst ` {e \<in> set (sessions w). hangs sys tick now (snd e)}"
    and "{sock. SocketClose sock \<in> set evs}
           = (\<lambda>e. socket (snd e)) ` {e \<in> set (sessions w). hangs sys tick now (snd e)}"
    and "map_of by' sock
           = (if sock \<in> (\<lambda>e. socket (snd e)) ` {e \<in> set (sessions w). hangs sys tick now (snd e)}
              then None else map_of bySocket sock)"
proof -
  obtain ws1 by1 evs1 where t: "tickSessions sys tick now wsId (sessions w)
      ((sessions w, bySocket), []) = ((ws1, by1), evs1)"
    by (metis prod.collapse)
  note r = tickSessions_result [OF reg subset_refl t]
  obtain soft start where c: "countdown (ws1 = []) (closing w) (softShutdown w) = (soft, start)"
    by (metis prod.collapse)
  have w': "sessions w' = ws1" and b: "by' = by1"
    and e: "evs = evs1 @ (if start then [ClosingWorkspace wsId, CloseCheckStarted wsId (wsUid w)] else [])"
    using res t c by (auto simp: tickWorkspace_def)
  show "fst ` set (sessions w') = fst ` set (sessions w)
           - fst ` {e \<in> set (sessions w). hangs sys tick now (snd e)}"
    using r w' by simp
  have "{sock. SocketClose sock \<in> set evs} = {sock. SocketClose sock \<in> set evs1}"
    unfolding e by auto
  then show "{sock. SocketClose sock \<in> set evs}
           = (\<lambda>e. socket (snd e)) ` {e \<in> set (sessions w). hangs sys tick now (snd e)}"
    using r by simp
  show "map_of by' sock
           = (if sock \<in> (\<lambda>e. socket (snd e)) ` {e \<in> set (sessions w). hangs sys tick now (snd e)}
              then None else map_of bySocket sock)"
    using r b by simp
qed

lemma tickWorkspace_hang:
  assumes reg: "registered (sessions w) bySocket"
    and mem: "(sid, r) \<in> set (sessions w)"
    and res: "tickWorkspace sys tick now wsId w bySocket = ((w', by'), evs)"
  shows "hangs sys tick now r \<Longrightarrow> SocketClose (socket r) \<in> set evs \<and> sid \<notin> fst ` set (sessions w')"
    and "\<not> hangs sys tick now r \<Longrightarrow> SocketClose (socket r) \<notin> set evs \<and> sid \<in> fst ` set (sessions w')"
proof -
  note k = tickWorkspace_sessions(1) [OF reg res] and c = tickWorkspace_sessions(2) [OF reg res]
  have d: "distinct (map fst (sessions w))" using reg by (simp add: registered_def)
  {
    assume h: "hangs sys tick now r"
    then have "(sid, r) \<in> {e \<in> set (sessions w). hangs sys tick now (snd e)}" using mem by simp
    then have "socket r \<in> (\<lambda>e. socket (snd e)) ` {e \<in> set (sessions w). hangs sys tick now (snd e)}"
      and "sid \<in> fst ` {e \<in> set (sessions w). hangs sys tick now (snd e)}"
      by force+
    then show "SocketClose (socket r) \<in> set evs \<and> sid \<notin> fst ` set (sessions w')"
      using k c by blast
  }
  {
    assume h: "\<not> hangs sys tick now r"
    have 1: "socket r \<notin> (\<lambda>e. socket (snd e)) ` {e \<in> set (sessions w). hangs sys tick now (snd e)}"
    proof
      assume "socket r \<in> (\<lambda>e. socket (snd e)) ` {e \<in> set (sessions w). hangs sys tick now (snd e)}"
      then obtain e where e: "e \<in> set (sessions w)" "hangs sys tick now (snd e)"
        "socket (snd e) = socket r" by auto
      from registered_distinct_sockets [OF reg e(1) mem] e(3) have "e = (sid, r)" by simp
      then show False using e(2) h by simp
    qed
    have 2: "sid \<notin> fst ` {e \<in> set (sessions w). hangs sys tick now (snd e)}"
    proof
      assume "sid \<in> fst ` {e \<in> set (sessions w). hangs sys tick now (snd e)}"
      then obtain e where e: "e \<in> set (sessions w)" "hangs sys tick now (snd e)" "fst e = sid"
        by auto
      then have "e = (sid, r)" using d mem by (metis eq_key_imp_eq_value prod.collapse)
      then show False using e(2) h by simp
    qed
    have "sid \<in> fst ` set (sessions w)" using mem by force
    then show "SocketClose (socket r) \<notin> set evs \<and> sid \<in> fst ` set (sessions w')"
      using 1 2 k c by blast
  }
qed


lemma distinct_concat_owner:
  "distinct (concat (map f ws)) \<Longrightarrow> x \<in> set ws \<Longrightarrow> y \<in> set ws
   \<Longrightarrow> a \<in> set (f x) \<Longrightarrow> a \<in> set (f y) \<Longrightarrow> x = y"
proof (induction ws)
  case Nil
  then show ?case by simp
next
  case (Cons z zs)
  have dj: "set (f z) \<inter> (\<Union>u \<in> set zs. set (f u)) = {}" and d: "distinct (concat (map f zs))"
    using Cons.prems(1) by auto
  show ?case
  proof (cases "x = z")
    case xz: True
    show ?thesis
    proof (cases "y = z")
      case True
      then show ?thesis using xz by simp
    next
      case False
      then have "y \<in> set zs" using Cons.prems(3) by simp
      then have "a \<in> (\<Union>u \<in> set zs. set (f u))" using Cons.prems(5) by blast
      then show ?thesis using dj Cons.prems(4) xz by blast
    qed
  next
    case xz: False
    then have x: "x \<in> set zs" using Cons.prems(2) by simp
    show ?thesis
    proof (cases "y = z")
      case True
      have "a \<in> (\<Union>u \<in> set zs. set (f u))" using x Cons.prems(4) by blast
      then show ?thesis using dj Cons.prems(5) True by blast
    next
      case False
      then have "y \<in> set zs" using Cons.prems(3) by simp
      from Cons.IH [OF d x this Cons.prems(4,5)] show ?thesis .
    qed
  qed
qed

lemma tickWorkspaces_result:
  assumes "list_all (\<lambda>e. registered (sessions (snd e)) bySocket) ws"
    and "distinct (concat (map (\<lambda>e. socketsOf (snd e)) ws))"
    and "tickWorkspaces sys tick now ws bySocket = ((ws', by'), evs)"
  shows "list_all2 (\<lambda>x x'. fst x' = fst x
            \<and> fst ` set (sessions (snd x')) = fst ` set (sessions (snd x))
                 - fst ` {e \<in> set (sessions (snd x)). hangs sys tick now (snd e)}) ws ws'
       \<and> {sock. SocketClose sock \<in> set evs}
           = (\<Union>x \<in> set ws. (\<lambda>e. socket (snd e))
                 ` {e \<in> set (sessions (snd x)). hangs sys tick now (snd e)})"
  using assms
proof (induction ws arbitrary: bySocket ws' by' evs)
  case Nil
  then show ?case by auto
next
  case (Cons x xs)
  obtain x' by1 evs1 where t1: "tickWorkspace sys tick now (fst x) (snd x) bySocket = ((x', by1), evs1)"
    by (metis prod.collapse)
  obtain xs' by2 evs2 where t2: "tickWorkspaces sys tick now xs by1 = ((xs', by2), evs2)"
    by (metis prod.collapse)
  have res: "ws' = (fst x, x') # xs'" "evs = evs1 @ evs2"
    using Cons.prems(3) t1 t2 by auto
  have regx: "registered (sessions (snd x)) bySocket" using Cons.prems(1) by simp
  note k = tickWorkspace_sessions [OF regx t1]
  have dj: "set (socketsOf (snd x)) \<inter> (\<Union>u \<in> set xs. set (socketsOf (snd u))) = {}"
    and d: "distinct (concat (map (\<lambda>e. socketsOf (snd e)) xs))"
    using Cons.prems(2) by auto
  have regxs: "list_all (\<lambda>e. registered (sessions (snd e)) by1) xs"
    unfolding list_all_iff
  proof
    fix y assume y: "y \<in> set xs"
    have ry: "registered (sessions (snd y)) bySocket"
      using Cons.prems(1) y by (simp add: list_all_iff)
    show "registered (sessions (snd y)) by1"
      unfolding registered_def list_all_iff
    proof (intro conjI ballI)
      show "distinct (map fst (sessions (snd y)))" using ry by (simp add: registered_def)
      fix e assume e: "e \<in> set (sessions (snd y))"
      then have "socket (snd e) \<in> set (socketsOf (snd y))" by (simp add: socketsOf_def)
      then have "socket (snd e) \<notin> set (socketsOf (snd x))" using dj y by blast
      then have "socket (snd e) \<notin> (\<lambda>e. socket (snd e))
                   ` {e \<in> set (sessions (snd x)). hangs sys tick now (snd e)}"
        by (auto simp: socketsOf_def)
      then have "map_of by1 (socket (snd e)) = map_of bySocket (socket (snd e))"
        using k(3) by simp
      then show "map_of by1 (socket (snd e)) = Some (fst e)"
        using ry e by (simp add: registered_def list_all_iff)
    qed
  qed
  note ih = Cons.IH [OF regxs d t2]
  have "{sock. SocketClose sock \<in> set evs}
          = {sock. SocketClose sock \<in> set evs1} \<union> {sock. SocketClose sock \<in> set evs2}"
    unfolding res by auto
  then have c: "{sock. SocketClose sock \<in> set evs}
           = (\<Union>x \<in> set (x # xs). (\<lambda>e. socket (snd e))
                 ` {e \<in> set (sessions (snd x)). hangs sys tick now (snd e)})"
    using k(2) ih by simp
  show ?case using ih k(1) c unfolding res by simp
qed

lemma list_all2_map_of:
  assumes "list_all2 (\<lambda>x x'. fst x' = fst x \<and> P (snd x) (snd x')) ws ws'"
    and "distinct (map fst ws)" and "(k, w) \<in> set ws"
  shows "\<exists>w'. map_of ws' k = Some w' \<and> P w w'"
  using assms
proof (induction ws ws' rule: list_all2_induct)
  case Nil
  then show ?case by simp
next
  case (Cons x xs y ys)
  show ?case
  proof (cases "(k, w) = x")
    case True
    then show ?thesis using Cons.hyps(1) by (cases y) auto
  next
    case False
    then have m: "(k, w) \<in> set xs" using Cons.prems(2) by simp
    then have "k \<in> set (map fst xs)" by (metis fst_conv image_eqI set_map)
    moreover have "fst x \<notin> set (map fst xs)" using Cons.prems(1) by simp
    ultimately have "k \<noteq> fst x" by blast
    moreover from Cons.IH m Cons.prems(1) obtain w' where "map_of ys k = Some w' \<and> P w w'"
      by auto
    ultimately show ?thesis using Cons.hyps(1) by (cases y) auto
  qed
qed

text \<open>
  Claim C7. On a tick of the session manager, a session of a live workspace is
  force-closed (its socket is closed and it is taken out of the workspace) exactly when
  its silence since \<open>lastRequest\<close> exceeds the hang timeout and the tick is a qualifying
  one, that is, the tick counter is a multiple of 10; the hang timeout is 60 seconds,
  and 10 times that for a session of the system account. So a user's session silent for
  70 seconds is closed on a qualifying tick, and a session of the system account silent
  for 70 seconds is closed on no tick. The sessions are taken to be registered with the
  manager the way \<open>addSession\<close> registers them.
\<close>

theorem handleInterval_hang_close:
  assumes "wellRegistered m" and "(wsId, w) \<in> set (workspaces m)"
    and "(sid, r) \<in> set (sessions w)"
    and "handleInterval sys now m = (m', evs)"
  shows "\<exists>w'. map_of (workspaces m') wsId = Some w'
          \<and> (now - lastRequest (session r) > hangTimeout sys (session r) \<and> ticks m mod 10 = 0
               \<longrightarrow> SocketClose (socket r) \<in> set evs \<and> sid \<notin> fst ` set (sessions w'))
          \<and> (\<not> (now - lastRequest (session r) > hangTimeout sys (session r) \<and> ticks m mod 10 = 0)
               \<longrightarrow> SocketClose (socket r) \<notin> set evs \<and> sid \<in> fst ` set (sessions w'))
          \<and> hangTimeout sys (session r) = (if getUser (session r) = sys then 10 * 60000 else 60000)
          \<and> (getUser (session r) \<noteq> sys \<and> now - lastRequest (session r) = 70000
               \<and> ticks m mod 10 = 0
               \<longrightarrow> SocketClose (socket r) \<in> set evs \<and> sid \<notin> fst ` set (sessions w'))
          \<and> (getUser (session r) = sys \<and> now - lastRequest (session r) = 70000
               \<longrightarrow> SocketClose (socket r) \<notin> set evs \<and> sid \<in> fst ` set (sessions w'))"
proof -
  let ?H = "\<lambda>w. {e \<in> set (sessions w). hangs sys (ticks m) now (snd e)}"
  obtain ws' by' where t: "tickWorkspaces sys (ticks m) now (workspaces m) (sessionsBySocket m)
      = ((ws', by'), evs)" and m': "workspaces m' = ws'"
    using assms(4) by (auto simp: handleInterval_def split: prod.splits)
  have regs: "list_all (\<lambda>e. registered (sessions (snd e)) (sessionsBySocket m)) (workspaces m)"
    and ds: "distinct (concat (map (\<lambda>e. socketsOf (snd e)) (workspaces m)))"
    and dk: "distinct (map fst (workspaces m))"
    using assms(1) by (simp_all add: wellRegistered_def)
  note res = tickWorkspaces_result [OF regs ds t]
  from res have l2: "list_all2 (\<lambda>x x'. fst x' = fst x
      \<and> (\<lambda>w w'. fst ` set (sessions w') = fst ` set (sessions w) - fst ` ?H w) (snd x) (snd x'))
      (workspaces m) ws'" by simp
  from list_all2_map_of [OF l2 dk assms(2)] obtain w' where
    w': "map_of ws' wsId = Some w'"
    and keys: "fst ` set (sessions w') = fst ` set (sessions w) - fst ` ?H w" by blast
  from res have closes: "{sock. SocketClose sock \<in> set evs}
      = (\<Union>x \<in> set (workspaces m). (\<lambda>e. socket (snd e)) ` ?H (snd x))" by simp
  have reg: "registered (sessions w) (sessionsBySocket m)"
    using regs assms(2) by (auto simp: list_all_iff)
  have dw: "distinct (map fst (sessions w))" using reg by (simp add: registered_def)
  have hang: "SocketClose (socket r) \<in> set evs \<and> sid \<notin> fst ` set (sessions w')"
    if h: "hangs sys (ticks m) now r"
  proof -
    have in_h: "(sid, r) \<in> ?H w" using assms(3) h by simp
    then have "socket r \<in> (\<Union>x \<in> set (workspaces m). (\<lambda>e. socket (snd e)) ` ?H (snd x))"
      using assms(2) by force
    then have "socket r \<in> {sock. SocketClose sock \<in> set evs}" by (simp only: closes)
    then have a: "SocketClose (socket r) \<in> set evs" by simp
    have "sid \<in> fst ` ?H w" using in_h by force
    then have b: "sid \<notin> fst ` set (sessions w')" by (simp only: keys) simp
    show ?thesis using a b by (rule conjI)
  qed
  have quiet: "SocketClose (socket r) \<notin> set evs \<and> sid \<in> fst ` set (sessions w')"
    if h: "\<not> hangs sys (ticks m) now r"
  proof -
    have 1: "socket r \<notin> (\<Union>x \<in> set (workspaces m). (\<lambda>e. socket (snd e)) ` ?H (snd x))"
    proof
      assume "socket r \<in> (\<Union>x \<in> set (workspaces m). (\<lambda>e. socket (snd e)) ` ?H (snd x))"
      then obtain x e where x: "x \<in> set (workspaces m)" and e: "e \<in> set (sessions (snd x))"
        "hangs sys (ticks m) now (snd e)" "socket (snd e) = socket r" by auto
      have "socket r \<in> set (socketsOf (snd x))" using e by (force simp: socketsOf_def)
      moreover have "socket r \<in> set (socketsOf (snd (wsId, w)))"
        using assms(3) by (force simp: socketsOf_def)
      ultimately have "x = (wsId, w)"
        using distinct_concat_owner [OF ds x assms(2)] by blast
      then have "e \<in> set (sessions w)" using e(1) by simp
      from registered_distinct_sockets [OF reg this assms(3)] e(3) have "e = (sid, r)" by simp
      then show False using e(2) h by simp
    qed
    have 2: "sid \<notin> fst ` ?H w"
    proof
      assume "sid \<in> fst ` ?H w"
      then obtain e where e: "e \<in> set (sessions w)" "hangs sys (ticks m) now (snd e)" "fst e = sid"
        by auto
      then have "e = (sid, r)" using dw assms(3) by (metis eq_key_imp_eq_value prod.collapse)
      then show False using e(2) h by simp
    qed
    have a: "SocketClose (socket r) \<notin> set evs"
    proof
      assume "SocketClose (socket r) \<in> set evs"
      then have "socket r \<in> {sock. SocketClose sock \<in> set evs}" by simp
      then have "socket r \<in> (\<Union>x \<in> set (workspaces m). (\<lambda>e. socket (snd e)) ` ?H (snd x))"
        by (simp only: closes)
      with 1 show False by (rule notE)
    qed
    have "sid \<in> fst ` set (sessions w)" using assms(3) by force
    then have "sid \<in> fst ` set (sessions w) - fst ` ?H w" using 2 by (rule DiffI)
    then have b: "sid \<in> fst ` set (sessions w')" by (simp only: keys)
    show ?thesis using a b by (rule conjI)
  qed
  have ht: "hangTimeout sys (session r) = (if getUser (session r) = sys then 10 * 60000 else 60000)"
    by (simp add: hangTimeout_def)
  have hd: "hangs sys (ticks m) now r
      \<longleftrightarrow> now - lastRequest (session r) > hangTimeout sys (session r) \<and> ticks m mod 10 = 0"
    by (simp add: hangs_def)
  have user70: "hangs sys (ticks m) now r"
    if "getUser (session r) \<noteq> sys" "now - lastRequest (session r) = 70000" "ticks m mod 10 = 0"
    using that by (simp add: hd ht)
  have sys70: "\<not> hangs sys (ticks m) now r"
    if "getUser (session r) = sys" "now - lastRequest (session r) = 70000"
    using that by (simp add: hd ht)
  have "map_of (workspaces m') wsId = Some w'" using w' m' by simp
  moreover have "now - lastRequest (session r) > hangTimeout sys (session r) \<and> ticks m mod 10 = 0
      \<longrightarrow> SocketClose (socket r) \<in> set evs \<and> sid \<notin> fst ` set (sessions w')"
    using hang hd by simp
  moreover have "\<not> (now - lastRequest (session r) > hangTimeout sys (session r) \<and> ticks m mod 10 = 0)
      \<longrightarrow> SocketClose (socket r) \<notin> set evs \<and> sid \<in> fst ` set (sessions w')"
    using quiet hd by simp
  moreover have "getUser (session r) \<noteq> sys \<and> now - lastRequest (session r) = 70000
      \<and> ticks m mod 10 = 0
      \<longrightarrow> SocketClose (socket r) \<in> set evs \<and> sid \<notin> fst ` set (sessions w')"
  proof
    assume "getUser (session r) \<noteq> sys \<and> now - lastRequest (session r) = 70000
      \<and> ticks m mod 10 = 0"
    then have "hangs sys (ticks m) now r" using user70 by simp
    then show "SocketClose (socket r) \<in> set evs \<and> sid \<notin> fst ` set (sessions w')"
      by (rule hang)
  qed
  moreover have "getUser (session r) = sys \<and> now - lastRequest (session r) = 70000
      \<longrightarrow> SocketClose (socket r) \<notin> set evs \<and> sid \<in> fst ` set (sessions w')"
  proof
    assume "getUser (session r) = sys \<and> now - lastRequest (session r) = 70000"
    then have "\<not> hangs sys (ticks m) now r" using sys70 by simp
    then show "SocketClose (socket r) \<notin> set evs \<and> sid \<in> fst ` set (sessions w')"
      by (rule quiet)
  qed
  ultimately show ?thesis using ht by (intro exI [of _ w'] conjI)
qed

lemma exManager_wellRegistered: "wellRegistered exManager"
  by (simp add: wellRegistered_def exManager_def exWorkspace_def registered_def socketsOf_def)

lemma exManager_workspace: "(''ws1'', exWorkspace) \<in> set (workspaces exManager)"
  by (simp add: exManager_def)

theorem handleInterval_hang_close_witness:
  "wellRegistered exManager
   \<and> SocketClose ''sock1'' \<in> set (snd (handleInterval ''system@example.com'' 70000 exManager))
   \<and> SocketClose ''sock2'' \<notin> set (snd (handleInterval ''system@example.com'' 70000 exManager))"
proof -
  have e: "handleInterval ''system@example.com'' 70000 exManager
      = (fst (handleInterval ''system@example.com'' 70000 exManager),
         snd (handleInterval ''system@example.com'' 70000 exManager))" by simp
  have s1: "(''s1'', \<lparr>session = \<lparr>getUser = ''user@example.com'', sessionId = ''s1'',
                               lastRequest = 0, requests = [], current = (4, 2),
                               mins5 = (0, 0)\<rparr>,
                   socket = ''sock1''\<rparr>) \<in> set (sessions exWorkspace)"
    by (simp add: exWorkspace_def)
  have s2: "(''s2'', \<lparr>session = \<lparr>getUser = ''system@example.com'', sessionId = ''s2'',
                               lastRequest = 0, requests = [], current = (0, 0),
                               mins5 = (0, 0)\<rparr>,
                   socket = ''sock2''\<rparr>) \<in> set (sessions exWorkspace)"
    by (simp add: exWorkspace_def)
  have t: "ticks exManager mod 10 = 0" by (simp add: exManager_def)
  from handleInterval_hang_close [OF exManager_wellRegistered exManager_workspace s1 e] t
  have "SocketClose ''sock1'' \<in> set (snd (handleInterval ''system@example.com'' 70000 exManager))"
    by (auto simp: hangTimeout_def)
  moreover from handleInterval_hang_close [OF exManager_wellRegistered exManager_workspace s2 e]
  have "SocketClose ''sock2'' \<notin> set (snd (handleInterval ''system@example.com'' 70000 exManager))"
    by (auto simp: hangTimeout_def)
  ultimately show ?thesis using exManager_wellRegistered by simp
qed

section \<open>Soft shutdown of a workspace\<close>

lemma close_events: "close ws st = (st', evs) \<Longrightarrow> CloseCheckStarted a b \<notin> set evs"
  by (auto simp: close_def split: prod.splits option.splits)

lemma tickSessions_no_start:
  "tickSessions sys tick now wsId todo (st, evs) = (st', evs')
   \<Longrightarrow> CloseCheckStarted a b \<notin> set evs \<Longrightarrow> CloseCheckStarted a b \<notin> set evs'"
proof (induction todo arbitrary: st evs rule: length_induct)
  case (1 todo)
  show ?case
  proof (cases todo)
    case Nil
    then show ?thesis using "1.prems" by simp
  next
    case (Cons s rest)
    obtain wsS bySocket where st: "st = (wsS, bySocket)" by (cases st) auto
    let ?ws1 = "mapUpdate (fst s) (rollCounters tick) wsS"
    show ?thesis
    proof (cases "hangs sys tick now (snd s)")
      case True
      obtain st1 closed where cl: "close (socket (snd s)) (?ws1, bySocket) = (st1, closed)"
        by (cases "close (socket (snd s)) (?ws1, bySocket)") auto
      let ?todo = "filter (\<lambda>e. fst e \<in> fst ` set (fst st1)) rest"
      have len: "length ?todo < length todo" using Cons by (simp add: less_Suc_eq_le)
      have step: "tickSessions sys tick now wsId ?todo
          (st1, evs @ [SessionHang wsId (getUser (session (snd s)))] @ closed) = (st', evs')"
        using "1.prems"(1) Cons st True cl by (simp add: Let_def)
      have "CloseCheckStarted a b \<notin> set (evs @ [SessionHang wsId (getUser (session (snd s)))] @ closed)"
        using "1.prems"(2) close_events [OF cl] by simp
      with "1.IH" len step show ?thesis by blast
    next
      case False
      have len: "length rest < length todo" using Cons by simp
      have step: "tickSessions sys tick now wsId rest
          ((?ws1, bySocket), evs @ quietEvents tick now wsId (snd s)) = (st', evs')"
        using "1.prems"(1) Cons st False by (simp add: Let_def)
      have "CloseCheckStarted a b \<notin> set (evs @ quietEvents tick now wsId (snd s))"
        using "1.prems"(2) by (auto simp: quietEvents_def Let_def)
      with "1.IH" len step show ?thesis by blast
    qed
  qed
qed

lemma tickWorkspace_countdown:
  assumes "tickWorkspace sys tick now wsId w bySocket = ((w', by'), evs)"
  shows "softShutdown w' = (if sessions w' = [] \<and> \<not> closing w then softShutdown w - 1 else 3)"
    and "CloseCheckStarted wsId (wsUid w) \<in> set evs
           \<longleftrightarrow> sessions w' = [] \<and> \<not> closing w \<and> softShutdown w - 1 \<le> 0"
    and "closing w' \<longleftrightarrow> closing w \<or> (sessions w' = [] \<and> softShutdown w - 1 \<le> 0)"
proof -
  obtain ws1 by1 evs1 where t: "tickSessions sys tick now wsId (sessions w)
      ((sessions w, bySocket), []) = ((ws1, by1), evs1)"
    by (metis prod.collapse)
  have n: "CloseCheckStarted wsId (wsUid w) \<notin> set evs1"
    using tickSessions_no_start [OF t] by simp
  obtain soft start where c: "countdown (ws1 = []) (closing w) (softShutdown w) = (soft, start)"
    by (metis prod.collapse)
  have w': "w' = w\<lparr>sessions := ws1, softShutdown := soft, closing := (closing w \<or> start)\<rparr>"
    and e: "evs = evs1 @ (if start then [ClosingWorkspace wsId, CloseCheckStarted wsId (wsUid w)] else [])"
    using assms t c by (auto simp: tickWorkspace_def)
  show "softShutdown w' = (if sessions w' = [] \<and> \<not> closing w then softShutdown w - 1 else 3)"
    using c w' by (auto simp: countdown_def split: if_splits)
  show "CloseCheckStarted wsId (wsUid w) \<in> set evs
           \<longleftrightarrow> sessions w' = [] \<and> \<not> closing w \<and> softShutdown w - 1 \<le> 0"
    using c w' e n by (auto simp: countdown_def split: if_splits)
  show "closing w' \<longleftrightarrow> closing w \<or> (sessions w' = [] \<and> softShutdown w - 1 \<le> 0)"
    using c w' by (auto simp: countdown_def split: if_splits)
qed

lemma countdownRun_length: "countdownRun obs st = (st', starts) \<Longrightarrow> length starts = length obs"
  by (induction obs arbitrary: st st' starts) (auto split: prod.splits)

lemma countdownRun_closing:
  "countdownRun obs (s, True) = (st', starts) \<Longrightarrow> i < length obs \<Longrightarrow> \<not> starts ! i"
proof (induction obs arbitrary: s st' starts i)
  case Nil
  then show ?case by simp
next
  case (Cons x rest)
  obtain st2 starts2 where r: "countdownRun rest (3, True) = (st2, starts2)"
    by (metis prod.collapse)
  have s: "starts = False # starts2" using Cons.prems(1) r by (simp add: countdown_def)
  show ?case
  proof (cases i)
    case 0
    then show ?thesis using s by simp
  next
    case (Suc j)
    then have "j < length rest" using Cons.prems(2) by simp
    from Cons.IH [OF r this] show ?thesis using s Suc by simp
  qed
qed

lemma countdownRun_window:
  "1 \<le> s \<Longrightarrow> s \<le> 3 \<Longrightarrow> countdownRun obs (s, False) = (st', starts) \<Longrightarrow> i < length obs
   \<Longrightarrow> starts ! i \<Longrightarrow> nat s \<le> i + 1 \<and> (\<forall>j. j \<le> i \<and> i < j + 3 \<longrightarrow> obs ! j)"
proof (induction obs arbitrary: s st' starts i)
  case Nil
  then show ?case by simp
next
  case (Cons x rest)
  show ?case
  proof (cases x)
    case True
    obtain st2 starts2 where r: "countdownRun rest (s - 1, s - 1 \<le> 0) = (st2, starts2)"
      by (metis prod.collapse)
    have st: "starts = (s - 1 \<le> 0) # starts2"
      using Cons.prems(3) r True by (simp add: countdown_def)
    show ?thesis
    proof (cases i)
      case 0
      then have "s - 1 \<le> 0" using Cons.prems(5) st by simp
      then have "s = 1" using Cons.prems(1) by simp
      then show ?thesis using 0 True by simp
    next
      case (Suc k)
      have k: "k < length rest" using Cons.prems(4) Suc by simp
      have sk: "starts2 ! k" using Cons.prems(5) st Suc by simp
      show ?thesis
      proof (cases "s - 1 \<le> 0")
        case c: True
        then have "countdownRun rest (s - 1, True) = (st2, starts2)" using r by simp
        from countdownRun_closing [OF this k] sk show ?thesis by simp
      next
        case c: False
        then have r': "countdownRun rest (s - 1, False) = (st2, starts2)" using r by simp
        have "1 \<le> s - 1" "s - 1 \<le> 3" using c Cons.prems(2) by auto
        from Cons.IH [OF this r' k sk]
        have ih: "nat (s - 1) \<le> k + 1" "\<And>j. j \<le> k \<Longrightarrow> k < j + 3 \<Longrightarrow> rest ! j" by auto
        have "nat s \<le> i + 1" using ih(1) Suc by linarith
        moreover have "obs_j" if "j \<le> i" "i < j + 3" "obs_j = ((x # rest) ! j)" for j obs_j
        proof (cases j)
          case 0
          then show ?thesis using that True by simp
        next
          case (Suc j')
          then have "j' \<le> k" "k < j' + 3" using that \<open>i = Suc k\<close> by auto
          then show ?thesis using ih(2) that Suc by simp
        qed
        ultimately show ?thesis by blast
      qed
    qed
  next
    case False
    obtain st2 starts2 where r: "countdownRun rest (3, False) = (st2, starts2)"
      by (metis prod.collapse)
    have st: "starts = False # starts2"
      using Cons.prems(3) r False by (simp add: countdown_def)
    show ?thesis
    proof (cases i)
      case 0
      then show ?thesis using Cons.prems(5) st by simp
    next
      case (Suc k)
      have k: "k < length rest" using Cons.prems(4) Suc by simp
      have sk: "starts2 ! k" using Cons.prems(5) st Suc by simp
      have "(1::int) \<le> 3" "(3::int) \<le> 3" by simp_all
      from Cons.IH [OF this r k sk]
      have ih: "nat 3 \<le> k + 1" "\<And>j. j \<le> k \<Longrightarrow> k < j + 3 \<Longrightarrow> rest ! j" by auto
      have "nat s \<le> i + 1" using ih(1) Suc Cons.prems(2) by linarith
      moreover have "obs_j" if "j \<le> i" "i < j + 3" "obs_j = ((x # rest) ! j)" for j obs_j
      proof (cases j)
        case 0
        then show ?thesis using that ih(1) Suc by simp
      next
        case (Suc j')
        then have "j' \<le> k" "k < j' + 3" using that \<open>i = Suc k\<close> by auto
        then show ?thesis using ih(2) that Suc by simp
      qed
      ultimately show ?thesis by blast
    qed
  qed
qed

lemma closeCheck_identity:
  "performWorkspaceCloseCheck wsUID noSessions False wsid live
     = (if noSessions \<and> (case map_of live wsid of None \<Rightarrow> False
                          | Some installed \<Rightarrow> wsUid installed = wsUID)
        then mapDelete wsid live else live)"
  by (simp add: performWorkspaceCloseCheck_def split: option.splits)

text \<open>
  Claim C8, as stated, has every tick with zero sessions decrement the countdown. It
  fails for a workspace whose close sequence is under way: with no session, \<open>closing\<close>
  set and the countdown at 2, the tick sets the countdown back to 3.
\<close>

theorem softShutdown_counterexample:
  "softShutdown (fst (fst (tickWorkspace ''system@example.com'' 7 1000 ''ws1'' (exIdle True 2) []))) = 3
   \<and> sessions (fst (fst (tickWorkspace ''system@example.com'' 7 1000 ''ws1'' (exIdle True 2) []))) = []"
  by (simp add: tickWorkspace_def exIdle_def countdown_def)

text \<open>
  Claim C8, amended. For every workspace in the live map: a tick that ends its session
  loop with no session, while no close sequence is set for the workspace, decrements
  \<open>softShutdown\<close>, and every other tick (a session left, or \<open>closing\<close> set) puts it back to 3;
  the close sequence is started exactly when the decremented countdown is at most 0, so
  that, from the 3 a workspace is created with, it is started only at the end of three
  consecutive ticks without sessions. When the close sequence gets through its awaits
  without an error, it removes the entry of the live map under the key exactly when the
  workspace had no session at its start and the workspace installed under the key has
  the id captured when the sequence was started; otherwise it leaves the map as it is.
\<close>

theorem softShutdown_countdown:
  "(tickWorkspace sys tick now wsId w bySocket = ((w', by'), evs) \<longrightarrow>
      softShutdown w' = (if sessions w' = [] \<and> \<not> closing w then softShutdown w - 1 else 3)
      \<and> (CloseCheckStarted wsId (wsUid w) \<in> set evs
           \<longleftrightarrow> sessions w' = [] \<and> \<not> closing w \<and> softShutdown w - 1 \<le> 0)
      \<and> (closing w' \<longleftrightarrow> closing w \<or> (sessions w' = [] \<and> softShutdown w - 1 \<le> 0)))
   \<and> (countdownRun obs (3, False) = (st', starts) \<and> i < length obs \<and> starts ! i \<longrightarrow>
      2 \<le> i \<and> obs ! i \<and> obs ! (i - 1) \<and> obs ! (i - 2))
   \<and> performWorkspaceCloseCheck wsUID noSessions False wsid live
       = (if noSessions \<and> (case map_of live wsid of None \<Rightarrow> False
                            | Some installed \<Rightarrow> wsUid installed = wsUID)
          then mapDelete wsid live else live)"
proof (intro conjI impI)
  assume t: "tickWorkspace sys tick now wsId w bySocket = ((w', by'), evs)"
  show "softShutdown w' = (if sessions w' = [] \<and> \<not> closing w then softShutdown w - 1 else 3)"
    by (rule tickWorkspace_countdown(1) [OF t])
  show "CloseCheckStarted wsId (wsUid w) \<in> set evs
           \<longleftrightarrow> sessions w' = [] \<and> \<not> closing w \<and> softShutdown w - 1 \<le> 0"
    by (rule tickWorkspace_countdown(2) [OF t])
  show "closing w' \<longleftrightarrow> closing w \<or> (sessions w' = [] \<and> softShutdown w - 1 \<le> 0)"
    by (rule tickWorkspace_countdown(3) [OF t])
next
  assume a: "countdownRun obs (3, False) = (st', starts) \<and> i < length obs \<and> starts ! i"
  have "(1::int) \<le> 3" "(3::int) \<le> 3" by simp_all
  from countdownRun_window [OF this, of obs st' starts i] a
  have w: "nat 3 \<le> i + 1" "\<And>j. j \<le> i \<Longrightarrow> i < j + 3 \<Longrightarrow> obs ! j" by auto
  then have i2: "2 \<le> i" by simp
  moreover have "obs ! i" using w(2) [of i] by simp
  moreover have "obs ! (i - 1)" using w(2) [of "i - 1"] i2 by simp
  moreover have "obs ! (i - 2)" using w(2) [of "i - 2"] i2 by simp
  ultimately show "2 \<le> i" "obs ! i" "obs ! (i - 1)" "obs ! (i - 2)" by simp_all
next
  show "performWorkspaceCloseCheck wsUID noSessions False wsid live
       = (if noSessions \<and> (case map_of live wsid of None \<Rightarrow> False
                            | Some installed \<Rightarrow> wsUid installed = wsUID)
          then mapDelete wsid live else live)"
    by (rule closeCheck_identity)
qed

lemma exIdle_tick:
  "tickWorkspace ''system@example.com'' 7 1000 ''ws1'' (exIdle False 1) []
     = ((exIdle True 0, []), [ClosingWorkspace ''ws1'', CloseCheckStarted ''ws1'' ''u1''])"
  by (simp add: tickWorkspace_def exIdle_def countdown_def)

lemma exRun: "countdownRun [False, True, True, True] (3, False) = ((0, True), [False, False, False, True])"
  by (simp add: countdown_def)

theorem softShutdown_countdown_witness:
  "softShutdown (exIdle True 0) = 1 - 1
   \<and> CloseCheckStarted ''ws1'' ''u1''
       \<in> set [ClosingWorkspace ''ws1'', CloseCheckStarted ''ws1'' ''u1'']
   \<and> [False, True, True, True] ! 3 \<and> [False, True, True, True] ! 2 \<and> [False, True, True, True] ! 1
   \<and> performWorkspaceCloseCheck ''u1'' True False ''ws1'' [(''ws1'', exIdle True 0)] = []
   \<and> performWorkspaceCloseCheck ''u0'' True False ''ws1'' [(''ws1'', exIdle True 0)]
       = [(''ws1'', exIdle True 0)]"
proof -
  note T = softShutdown_countdown [of "''system@example.com''" 7 1000 "''ws1''" "exIdle False 1" "[]"
      "exIdle True 0" "[]" "[ClosingWorkspace ''ws1'', CloseCheckStarted ''ws1'' ''u1'']"
      "[False, True, True, True]" "(0, True)" "[False, False, False, True]" 3]
  have c: "sessions (exIdle True 0) = [] \<and> \<not> closing (exIdle False 1)
           \<and> softShutdown (exIdle False 1) - 1 \<le> 0"
    by (simp add: exIdle_def)
  have u: "wsUid (exIdle False 1) = ''u1''" "softShutdown (exIdle False 1) = 1"
    by (simp_all add: exIdle_def)
  from T [of "''u1''" True "''ws1''" "[(''ws1'', exIdle True 0)]"] exIdle_tick c
  have a: "softShutdown (exIdle True 0) = softShutdown (exIdle False 1) - 1"
    and b: "CloseCheckStarted ''ws1'' (wsUid (exIdle False 1))
       \<in> set [ClosingWorkspace ''ws1'', CloseCheckStarted ''ws1'' ''u1'']"
    by presburger+
  have r: "(3::nat) < length [False, True, True, True] \<and> [False, False, False, True] ! 3"
    by simp
  from T [of "''u1''" True "''ws1''" "[(''ws1'', exIdle True 0)]"] exRun r
  have w: "[False, True, True, True] ! 3 \<and> [False, True, True, True] ! (3 - 1)
           \<and> [False, True, True, True] ! (3 - 2)"
    by presburger
  from T [of "''u1''" True "''ws1''" "[(''ws1'', exIdle True 0)]"]
  have p1: "performWorkspaceCloseCheck ''u1'' True False ''ws1'' [(''ws1'', exIdle True 0)] = []"
    by (simp add: exIdle_def mapDelete_def)
  from T [of "''u0''" True "''ws1''" "[(''ws1'', exIdle True 0)]"]
  have p2: "performWorkspaceCloseCheck ''u0'' True False ''ws1'' [(''ws1'', exIdle True 0)]
       = [(''ws1'', exIdle True 0)]"
    by (simp add: exIdle_def mapDelete_def)
  show ?thesis using a b w p1 p2 u by simp
qed

section \<open>The removal pass of restore\<close>

lemma performClean_calls:
  "performCleanOfDomain fuel succeeds k ids c = (calls, k', done) \<Longrightarrow>
     list_all (\<lambda>call. cleanDomain call = c \<and> cleanIds call \<noteq> []
                      \<and> length (cleanIds call) \<le> 10000) calls
     \<and> set (cleaned c calls) \<subseteq> set ids
     \<and> (done \<longrightarrow> set (cleaned c calls) = set ids)"
proof (induction fuel arbitrary: k ids calls k' "done")
  case 0
  then show ?case
    by (subst (asm) performCleanOfDomain.simps) (auto simp: cleaned_def split: if_splits)
next
  case (Suc fuel)
  show ?case
  proof (cases "ids = []")
    case True
    then show ?thesis using Suc.prems
      by (subst (asm) performCleanOfDomain.simps) (auto simp: cleaned_def)
  next
    case False
    let ?part = "take 10000 ids" and ?rest = "drop 10000 ids"
    let ?next = "if succeeds k then ?rest else ?rest @ ?part"
    obtain calls1 k1 done1 where r: "performCleanOfDomain fuel succeeds (k + 1) ?next c = (calls1, k1, done1)"
      by (metis prod.collapse)
    have e: "calls = \<lparr>cleanDomain = c, cleanIds = ?part, cleanOk = succeeds k\<rparr> # calls1"
      "done = done1"
      using Suc.prems False r by (subst (asm) performCleanOfDomain.simps, simp add: Let_def)+
    note ih = Suc.IH [OF r]
    have pr: "set ?part \<union> set ?rest = set ids"
      by (metis append_take_drop_id set_append)
    have ne: "?part \<noteq> []" using False by simp
    have cl: "cleaned c calls = (if succeeds k then ?part else []) @ cleaned c calls1"
      unfolding e by (simp add: cleaned_def)
    show ?thesis
    proof (cases "succeeds k")
      case True
      then have "set (cleaned c calls) = set ?part \<union> set (cleaned c calls1)" using cl by simp
      moreover have "set (cleaned c calls1) \<subseteq> set ?rest" "done1 \<longrightarrow> set (cleaned c calls1) = set ?rest"
        using ih True by auto
      ultimately have "set (cleaned c calls) \<subseteq> set ids" "done \<longrightarrow> set (cleaned c calls) = set ids"
        using pr e(2) by auto
      then show ?thesis using ih ne unfolding e by simp
    next
      case False
      then have "set (cleaned c calls) = set (cleaned c calls1)" using cl by simp
      moreover have "set (cleaned c calls1) \<subseteq> set ids" "done1 \<longrightarrow> set (cleaned c calls1) = set ids"
        using ih False pr by auto
      ultimately have "set (cleaned c calls) \<subseteq> set ids" "done \<longrightarrow> set (cleaned c calls) = set ids"
        using e(2) by auto
      then show ?thesis using ih ne unfolding e by simp
    qed
  qed
qed

lemma performClean_total:
  "\<forall>j. succeeds j \<Longrightarrow> length ids \<le> fuel \<Longrightarrow>
     \<exists>calls k'. performCleanOfDomain fuel succeeds k ids c = (calls, k', True)
        \<and> concat (map cleanIds calls) = ids \<and> list_all cleanOk calls"
proof (induction fuel arbitrary: k ids)
  case 0
  then show ?case by (subst performCleanOfDomain.simps) simp
next
  case (Suc fuel)
  show ?case
  proof (cases "ids = []")
    case True
    then show ?thesis by (subst performCleanOfDomain.simps) simp
  next
    case False
    then have "length (drop 10000 ids) \<le> fuel" using Suc.prems(2) by simp
    from Suc.IH [OF Suc.prems(1) this, of "k + 1"] obtain calls k' where
      r: "performCleanOfDomain fuel succeeds (k + 1) (drop 10000 ids) c = (calls, k', True)"
      "concat (map cleanIds calls) = drop 10000 ids" "list_all cleanOk calls" by blast
    show ?thesis
      using False r Suc.prems(1)
      by (subst performCleanOfDomain.simps) (simp add: Let_def)
  qed
qed


lemma cleaned_other:
  "list_all (\<lambda>call. cleanDomain call = d) calls \<Longrightarrow> d \<noteq> c \<Longrightarrow> cleaned c calls = []"
  by (induction calls) (auto simp: cleaned_def)

lemma cleaned_append: "cleaned c (xs @ ys) = cleaned c xs @ cleaned c ys"
  by (simp add: cleaned_def)

lemma cleaned_all:
  "list_all (\<lambda>call. cleanDomain call = c) calls \<Longrightarrow> list_all cleanOk calls
   \<Longrightarrow> cleaned c calls = concat (map cleanIds calls)"
  by (induction calls) (auto simp: cleaned_def)

lemma domains_distinct:
  "DOMAIN_FULLTEXT_BLOB \<noteq> DOMAIN_BLOB" "DOMAIN_DOC_INDEX_STATE \<noteq> DOMAIN_BLOB"
  "DOMAIN_FULLTEXT_BLOB \<noteq> DOMAIN_DOC_INDEX_STATE"
  by (simp_all add: DOMAIN_FULLTEXT_BLOB_def DOMAIN_BLOB_def DOMAIN_DOC_INDEX_STATE_def)

lemma removalPass_calls:
  assumes "removalPass fuel succeeds c ids merge = (calls, done)"
  shows "list_all (\<lambda>call. cleanDomain call \<noteq> DOMAIN_BLOB
           \<and> (cleanDomain call = c
                \<or> (c = DOMAIN_DOC_INDEX_STATE \<and> cleanDomain call = DOMAIN_FULLTEXT_BLOB))
           \<and> length (cleanIds call) \<le> 10000) calls"
    and "done \<Longrightarrow> c \<noteq> DOMAIN_BLOB \<Longrightarrow> merge \<noteq> Some True \<Longrightarrow>
           set (cleaned c calls) = set ids
           \<and> (c = DOMAIN_DOC_INDEX_STATE \<longrightarrow> set (cleaned DOMAIN_FULLTEXT_BLOB calls) = set ids)"
proof -
  consider (skip) "c = DOMAIN_BLOB \<or> ids = [] \<or> merge = Some True"
    | (index) "c \<noteq> DOMAIN_BLOB" "ids \<noteq> []" "merge \<noteq> Some True" "c = DOMAIN_DOC_INDEX_STATE"
    | (plain) "c \<noteq> DOMAIN_BLOB" "ids \<noteq> []" "merge \<noteq> Some True" "c \<noteq> DOMAIN_DOC_INDEX_STATE"
    by blast
  then have "list_all (\<lambda>call. cleanDomain call \<noteq> DOMAIN_BLOB
           \<and> (cleanDomain call = c
                \<or> (c = DOMAIN_DOC_INDEX_STATE \<and> cleanDomain call = DOMAIN_FULLTEXT_BLOB))
           \<and> length (cleanIds call) \<le> 10000) calls
     \<and> (done \<longrightarrow> c \<noteq> DOMAIN_BLOB \<longrightarrow> merge \<noteq> Some True \<longrightarrow>
           set (cleaned c calls) = set ids
           \<and> (c = DOMAIN_DOC_INDEX_STATE \<longrightarrow> set (cleaned DOMAIN_FULLTEXT_BLOB calls) = set ids))"
  proof cases
    case skip
    then have "removalPass fuel succeeds c ids merge = ([], True)"
      by (auto simp: removalPass_def)
    then have "calls = []" "done" using assms by simp_all
    moreover have "ids = []" if "c \<noteq> DOMAIN_BLOB" "merge \<noteq> Some True" using skip that by blast
    ultimately show ?thesis by (auto simp: cleaned_def)
  next
    case plain
    obtain k where p: "performCleanOfDomain fuel succeeds 0 ids c = (calls, k, done)"
      using assms plain by (auto simp: removalPass_def split: prod.splits)
    note r = performClean_calls [OF p]
    have "list_all (\<lambda>call. cleanDomain call = c \<and> length (cleanIds call) \<le> 10000) calls"
      using r by (simp add: list_all_iff)
    then show ?thesis using r plain by (simp add: list_all_iff)
  next
    case index
    obtain calls1 k done1 where p1:
      "performCleanOfDomain fuel succeeds 0 ids DOMAIN_FULLTEXT_BLOB = (calls1, k, done1)"
      by (metis prod.collapse)
    obtain calls2 k' done2 where p2:
      "performCleanOfDomain fuel succeeds k ids c = (calls2, k', done2)"
      by (metis prod.collapse)
    note r1 = performClean_calls [OF p1] and r2 = performClean_calls [OF p2]
    have d1: "list_all (\<lambda>call. cleanDomain call = DOMAIN_FULLTEXT_BLOB) calls1"
      and d2: "list_all (\<lambda>call. cleanDomain call = c) calls2"
      using r1 r2 by (simp_all add: list_all_iff)
    have ne: "DOMAIN_FULLTEXT_BLOB \<noteq> c" "c \<noteq> DOMAIN_FULLTEXT_BLOB"
      using index(4) domains_distinct(3) by auto
    show ?thesis
    proof (cases done1)
      case True
      then have e: "calls = calls1 @ calls2" "done = done2"
        using assms index p1 p2 by (auto simp: removalPass_def)
      have c1: "cleaned c calls = cleaned c calls2"
        unfolding e cleaned_append using cleaned_other [OF d1 ne(1)] by simp
      have c2: "cleaned DOMAIN_FULLTEXT_BLOB calls = cleaned DOMAIN_FULLTEXT_BLOB calls1"
        unfolding e cleaned_append using cleaned_other [OF d2 ne(2)] by simp
      have l: "list_all (\<lambda>call. cleanDomain call \<noteq> DOMAIN_BLOB
           \<and> (cleanDomain call = c
                \<or> (c = DOMAIN_DOC_INDEX_STATE \<and> cleanDomain call = DOMAIN_FULLTEXT_BLOB))
           \<and> length (cleanIds call) \<le> 10000) calls"
        unfolding e using r1 r2 index domains_distinct by (auto simp: list_all_iff)
      show ?thesis using l c1 c2 r1 r2 True e(2) by simp
    next
      case False
      then have e: "calls = calls1" "done = False"
        using assms index p1 by (auto simp: removalPass_def)
      have "list_all (\<lambda>call. cleanDomain call \<noteq> DOMAIN_BLOB
           \<and> (cleanDomain call = c
                \<or> (c = DOMAIN_DOC_INDEX_STATE \<and> cleanDomain call = DOMAIN_FULLTEXT_BLOB))
           \<and> length (cleanIds call) \<le> 10000) calls"
        unfolding e using r1 index domains_distinct by (auto simp: list_all_iff)
      then show ?thesis using e(2) by simp
    qed
  qed
  then show "list_all (\<lambda>call. cleanDomain call \<noteq> DOMAIN_BLOB
           \<and> (cleanDomain call = c
                \<or> (c = DOMAIN_DOC_INDEX_STATE \<and> cleanDomain call = DOMAIN_FULLTEXT_BLOB))
           \<and> length (cleanIds call) \<le> 10000) calls"
    and "done \<Longrightarrow> c \<noteq> DOMAIN_BLOB \<Longrightarrow> merge \<noteq> Some True \<Longrightarrow>
           set (cleaned c calls) = set ids
           \<and> (c = DOMAIN_DOC_INDEX_STATE \<longrightarrow> set (cleaned DOMAIN_FULLTEXT_BLOB calls) = set ids)"
    by blast+
qed

lemma removalPass_total:
  assumes "\<forall>j. succeeds j" and "length ids \<le> fuel" and "c \<noteq> DOMAIN_BLOB" and "merge \<noteq> Some True"
  shows "snd (removalPass fuel succeeds c ids merge)
         \<and> cleaned c (fst (removalPass fuel succeeds c ids merge)) = ids"
proof (cases "ids = []")
  case True
  then show ?thesis using assms by (simp add: removalPass_def cleaned_def)
next
  case False
  show ?thesis
  proof (cases "c = DOMAIN_DOC_INDEX_STATE")
    case plain: False
    obtain calls k where p: "performCleanOfDomain fuel succeeds 0 ids c = (calls, k, True)"
      "concat (map cleanIds calls) = ids" "list_all cleanOk calls"
      using performClean_total [OF assms(1,2)] by blast
    have d: "list_all (\<lambda>call. cleanDomain call = c) calls"
      using performClean_calls [OF p(1)] by (simp add: list_all_iff)
    have "removalPass fuel succeeds c ids merge = (calls, True)"
      using assms False plain p(1) by (simp add: removalPass_def)
    then show ?thesis using cleaned_all [OF d p(3)] p(2) by simp
  next
    case index: True
    obtain calls1 k where p1:
      "performCleanOfDomain fuel succeeds 0 ids DOMAIN_FULLTEXT_BLOB = (calls1, k, True)"
      using performClean_total [OF assms(1,2)] by blast
    obtain calls2 k' where p2: "performCleanOfDomain fuel succeeds k ids c = (calls2, k', True)"
      "concat (map cleanIds calls2) = ids" "list_all cleanOk calls2"
      using performClean_total [OF assms(1,2)] by blast
    have d1: "list_all (\<lambda>call. cleanDomain call = DOMAIN_FULLTEXT_BLOB) calls1"
      and d2: "list_all (\<lambda>call. cleanDomain call = c) calls2"
      using performClean_calls [OF p1] performClean_calls [OF p2(1)] by (simp_all add: list_all_iff)
    have ne: "DOMAIN_FULLTEXT_BLOB \<noteq> c" using index domains_distinct(3) by auto
    have "removalPass fuel succeeds c ids merge = (calls1 @ calls2, True)"
      using assms False index p1 p2(1) by (simp add: removalPass_def)
    then show ?thesis
      using cleaned_other [OF d1 ne] cleaned_all [OF d2 p2(3)] p2(2) by (simp add: cleaned_append)
  qed
qed

text \<open>
  Claim C10. In a restore run the removal pass never touches the blob domain: for the
  domain \<open>blob\<close> no \<^verbatim>\<open>clean\<close> call is made, whatever the documents found on the server and
  missing from the target digest and whatever the merge option, and no call made for
  another domain goes to \<open>blob\<close>. For every other domain no call is made when merge is set,
  and otherwise the ids to remove are cleaned in batches of at most 10000, a batch whose
  call fails being queued again: every call goes to the domain itself, or to the
  fulltext domain when the domain is \<open>doc-index-state\<close>; once the pass is through, the ids
  cleaned in the domain are the ids to remove, and for \<open>doc-index-state\<close> the ids cleaned
  in the fulltext domain are the same; and when no call fails the pass gets through.
\<close>

theorem restore_removal_pass:
  "(c = DOMAIN_BLOB \<longrightarrow>
      removalPass fuel succeeds c (docsToRemoveOf serverChangeset changeset) merge = ([], True))
   \<and> (merge = Some True \<longrightarrow> removalPass fuel succeeds c ids merge = ([], True))
   \<and> (removalPass fuel succeeds c ids merge = (calls, done) \<longrightarrow>
        list_all (\<lambda>call. cleanDomain call \<noteq> DOMAIN_BLOB
           \<and> (cleanDomain call = c
                \<or> (c = DOMAIN_DOC_INDEX_STATE \<and> cleanDomain call = DOMAIN_FULLTEXT_BLOB))
           \<and> length (cleanIds call) \<le> 10000) calls
        \<and> (done \<and> c \<noteq> DOMAIN_BLOB \<and> merge \<noteq> Some True \<longrightarrow>
             set (cleaned c calls) = set ids
             \<and> (c = DOMAIN_DOC_INDEX_STATE \<longrightarrow> set (cleaned DOMAIN_FULLTEXT_BLOB calls) = set ids)))
   \<and> ((\<forall>j. succeeds j) \<and> length ids \<le> fuel \<and> c \<noteq> DOMAIN_BLOB \<and> merge \<noteq> Some True \<longrightarrow>
        snd (removalPass fuel succeeds c ids merge)
        \<and> cleaned c (fst (removalPass fuel succeeds c ids merge)) = ids)"
proof (intro conjI impI)
  assume "c = DOMAIN_BLOB"
  then show "removalPass fuel succeeds c (docsToRemoveOf serverChangeset changeset) merge = ([], True)"
    by (simp add: removalPass_def)
next
  assume "merge = Some True"
  then show "removalPass fuel succeeds c ids merge = ([], True)"
    by (simp add: removalPass_def)
next
  assume r: "removalPass fuel succeeds c ids merge = (calls, done)"
  show "list_all (\<lambda>call. cleanDomain call \<noteq> DOMAIN_BLOB
           \<and> (cleanDomain call = c
                \<or> (c = DOMAIN_DOC_INDEX_STATE \<and> cleanDomain call = DOMAIN_FULLTEXT_BLOB))
           \<and> length (cleanIds call) \<le> 10000) calls"
    by (rule removalPass_calls(1) [OF r])
  assume d: "done \<and> c \<noteq> DOMAIN_BLOB \<and> merge \<noteq> Some True"
  from removalPass_calls(2) [OF r] d
  have x: "set (cleaned c calls) = set ids
             \<and> (c = DOMAIN_DOC_INDEX_STATE \<longrightarrow> set (cleaned DOMAIN_FULLTEXT_BLOB calls) = set ids)"
    by blast
  from x show "set (cleaned c calls) = set ids" by (rule conjunct1)
  assume "c = DOMAIN_DOC_INDEX_STATE"
  with x show "set (cleaned DOMAIN_FULLTEXT_BLOB calls) = set ids" by blast
next
  assume a: "(\<forall>j. succeeds j) \<and> length ids \<le> fuel \<and> c \<noteq> DOMAIN_BLOB \<and> merge \<noteq> Some True"
  then have t: "snd (removalPass fuel succeeds c ids merge)
        \<and> cleaned c (fst (removalPass fuel succeeds c ids merge)) = ids"
    using removalPass_total [of succeeds ids fuel c merge] by blast
  from t show "snd (removalPass fuel succeeds c ids merge)" by (rule conjunct1)
  from t show "cleaned c (fst (removalPass fuel succeeds c ids merge)) = ids" by (rule conjunct2)
qed

lemma exRemoval:
  "removalPass 3 failsOnce DOMAIN_DOC_INDEX_STATE [''a'', ''b''] None
     = ([\<lparr>cleanDomain = DOMAIN_FULLTEXT_BLOB, cleanIds = [''a'', ''b''], cleanOk = False\<rparr>,
         \<lparr>cleanDomain = DOMAIN_FULLTEXT_BLOB, cleanIds = [''a'', ''b''], cleanOk = True\<rparr>,
         \<lparr>cleanDomain = DOMAIN_DOC_INDEX_STATE, cleanIds = [''a'', ''b''], cleanOk = True\<rparr>],
        True)"
  by (simp add: removalPass_def performCleanOfDomain.simps failsOnce_def numeral_3_eq_3 Let_def
      domains_distinct)

theorem restore_removal_pass_witness:
  "removalPass 3 failsOnce DOMAIN_BLOB (docsToRemoveOf [(''x'', ''h1''), (''y'', ''h2'')] Map.empty) None
     = ([], True)
   \<and> set (cleaned DOMAIN_DOC_INDEX_STATE (fst (removalPass 3 failsOnce DOMAIN_DOC_INDEX_STATE [''a'', ''b''] None)))
       = {''a'', ''b''}
   \<and> set (cleaned DOMAIN_FULLTEXT_BLOB (fst (removalPass 3 failsOnce DOMAIN_DOC_INDEX_STATE [''a'', ''b''] None)))
       = {''a'', ''b''}
   \<and> snd (removalPass 3 alwaysSucceeds ''tx'' [''a'', ''b''] None)"
proof -
  have 1: "removalPass 3 failsOnce DOMAIN_BLOB
             (docsToRemoveOf [(''x'', ''h1''), (''y'', ''h2'')] Map.empty) None = ([], True)"
    using restore_removal_pass [of DOMAIN_BLOB 3 failsOnce "[(''x'', ''h1''), (''y'', ''h2'')]"
        Map.empty None] by simp
  have d: "True \<and> DOMAIN_DOC_INDEX_STATE \<noteq> DOMAIN_BLOB \<and> (None :: bool option) \<noteq> Some True"
    using domains_distinct by simp
  from restore_removal_pass [of DOMAIN_DOC_INDEX_STATE 3 failsOnce _ _ None "[''a'', ''b'']"
      "fst (removalPass 3 failsOnce DOMAIN_DOC_INDEX_STATE [''a'', ''b''] None)" True] exRemoval d
  have 2: "set (cleaned DOMAIN_DOC_INDEX_STATE
                 (fst (removalPass 3 failsOnce DOMAIN_DOC_INDEX_STATE [''a'', ''b''] None)))
             = set [''a'', ''b'']
           \<and> set (cleaned DOMAIN_FULLTEXT_BLOB
                 (fst (removalPass 3 failsOnce DOMAIN_DOC_INDEX_STATE [''a'', ''b''] None)))
             = set [''a'', ''b'']"
    by simp
  have a: "(\<forall>j. alwaysSucceeds j) \<and> length [''a'', ''b''] \<le> (3::nat) \<and> ''tx'' \<noteq> DOMAIN_BLOB
           \<and> (None :: bool option) \<noteq> Some True"
    by (simp add: alwaysSucceeds_def DOMAIN_BLOB_def)
  from restore_removal_pass [of "''tx''" 3 alwaysSucceeds _ _ None "[''a'', ''b'']"] a
  have 3: "snd (removalPass 3 alwaysSucceeds ''tx'' [''a'', ''b''] None)" by blast
  show ?thesis using 1 2 3 by simp
qed

section \<open>Moving blobs: a failed copy\<close>

lemma retry_fails:
  assumes "copyFails env i"
  shows "\<exists>errs e. retryOnFailure 5 (copyBlob env i) 0 None = (errs, Inl e) \<and> length errs = 5"
proof -
  obtain e0 e1 e2 e3 e4 where e: "copyBlob env i 0 = Inl e0" "copyBlob env i 1 = Inl e1"
    "copyBlob env i 2 = Inl e2" "copyBlob env i 3 = Inl e3" "copyBlob env i 4 = Inl e4"
    using assms by (auto simp: copyFails_def isl_def)
  have "retryOnFailure 5 (copyBlob env i) 0 None = ([e0, e1, e2, e3, e4], Inl (Some e4))"
    using e by (simp add: eval_nat_numeral)
  then show ?thesis by simp
qed

lemma processBlob_failed:
  assumes "targetBlobs env d = None" and "sourceStat env d = Inr (Some sb)"
    and "copyFails env (blobId sb)"
  shows "toRemove (processBlob env d st) = toRemove st"
    and "thrown (processBlob env d st) = thrown st"
    and "FailedToProcess d \<in> set (moveLog (processBlob env d st))"
proof -
  obtain errs e where r: "retryOnFailure 5 (copyBlob env (blobId sb)) 0 None = (errs, Inl e)"
    using retry_fails [OF assms(3)] by blast
  have p: "processBlob env d st
         = st\<lparr>moveLog := moveLog st @ map AttemptFailed errs @ [FailedToProcess d]\<rparr>"
    using assms(1,2) r by (simp add: processBlob_def)
  show "toRemove (processBlob env d st) = toRemove st"
    and "thrown (processBlob env d st) = thrown st"
    and "FailedToProcess d \<in> set (moveLog (processBlob env d st))"
    unfolding p by simp_all
qed

lemma processBlob_keeps:
  assumes "targetBlobs env d = None" and "copyFails env d"
    and "case sourceStat env dataId of Inr (Some b) \<Rightarrow> blobId b = dataId | _ \<Rightarrow> True"
    and "d \<notin> set (toRemove st)"
  shows "d \<notin> set (toRemove (processBlob env dataId st))"
proof (cases "dataId = d")
  case True
  show ?thesis
  proof (cases "sourceStat env d")
    case (Inl err)
    then show ?thesis using assms(1,4) True by (simp add: processBlob_def)
  next
    case (Inr b)
    show ?thesis
    proof (cases b)
      case None
      then show ?thesis using assms(1,4) True Inr by (simp add: processBlob_def)
    next
      case (Some sb)
      then have "blobId sb = d" using assms(3) True Inr by simp
      then have "copyFails env (blobId sb)" using assms(2) by simp
      from processBlob_failed(1) [OF assms(1) _ this, of st] Inr Some True assms(4)
      show ?thesis by simp
    qed
  qed
next
  case False
  show ?thesis
  proof (cases "targetBlobs env dataId")
    case (Some tb)
    then show ?thesis using assms(4) False
      by (auto simp: processBlob_def Let_def split: sum.splits)
  next
    case None
    then show ?thesis using assms(3,4) False
      by (auto simp: processBlob_def split: sum.splits option.splits prod.splits)
  qed
qed

lemma processBulk_keeps:
  assumes "targetBlobs env d = None" and "copyFails env d"
  shows "statsById env ids \<Longrightarrow> d \<notin> set (toRemove st)
         \<Longrightarrow> d \<notin> set (toRemove (processBulk env ids st))"
proof (induction ids arbitrary: st)
  case Nil
  then show ?case by simp
next
  case (Cons i rest)
  have s: "case sourceStat env i of Inr (Some b) \<Rightarrow> blobId b = i | _ \<Rightarrow> True"
    and r: "statsById env rest"
    using Cons.prems(1) by (simp_all add: statsById_def)
  note k = processBlob_keeps [OF assms s Cons.prems(2)]
  show ?case using Cons.IH [OF r k] k by (simp add: Let_def)
qed

lemma statsById_append: "statsById env (xs @ ys) \<longleftrightarrow> statsById env xs \<and> statsById env ys"
  by (simp add: statsById_def)

lemma processBulks_keeps:
  assumes "targetBlobs env d = None" and "copyFails env d"
  shows "statsById env (concat bulks) \<Longrightarrow> d \<notin> set (toRemove st)
         \<Longrightarrow> d \<notin> set (toRemove (processBulks env bulks st))"
proof (induction bulks arbitrary: st)
  case Nil
  then show ?case by simp
next
  case (Cons b rest)
  have s: "statsById env b" and r: "statsById env (concat rest)"
    using Cons.prems(1) by (simp_all add: statsById_append)
  note k = processBulk_keeps [OF assms s Cons.prems(2)]
  show ?case using Cons.IH [OF r k] k Cons.prems(2) by (simp add: Let_def)
qed

lemma removeBatches_calls:
  "removeBatches env queue = (calls, r) \<Longrightarrow>
     list_all (\<lambda>p. p \<noteq> [] \<and> length p \<le> 500) calls
     \<and> set (concat calls) \<subseteq> set queue
     \<and> (r = None \<longrightarrow> concat calls = queue)"
proof (induction "length queue" arbitrary: queue calls r rule: less_induct)
  case less
  show ?case
  proof (cases "queue = []")
    case True
    then show ?thesis using less.prems by (subst (asm) removeBatches.simps) simp
  next
    case False
    let ?part = "take 500 queue"
    have ne: "?part \<noteq> []" "length ?part \<le> 500" using False by simp_all
    have sub: "set ?part \<subseteq> set queue" by (rule set_take_subset)
    show ?thesis
    proof (cases "sourceRemove env ?part")
      case (Some err)
      then have "calls = [?part]" "r = Some err"
        using less.prems False by (subst (asm) removeBatches.simps, simp add: Let_def)+
      then show ?thesis using ne sub by simp
    next
      case None
      obtain calls1 r1 where t: "removeBatches env (drop 500 queue) = (calls1, r1)"
        by (metis prod.collapse)
      have e: "calls = ?part # calls1" "r = r1"
        using less.prems False None t by (subst (asm) removeBatches.simps, simp add: Let_def)+
      have "length (drop 500 queue) < length queue" using False by simp
      note ih = less.hyps [OF this t]
      have "set (concat calls1) \<subseteq> set queue"
        using ih set_drop_subset [of 500 queue] by blast
      moreover have "r = None \<longrightarrow> concat calls = queue"
        using ih e by simp
      ultimately show ?thesis using ih ne sub e by simp
    qed
  qed
qed

lemma processAdapter_removals:
  "list_all (\<lambda>p. p \<noteq> [] \<and> length p \<le> 500) (removeCalls (processAdapter env same bulks move))
   \<and> set (concat (removeCalls (processAdapter env same bulks move)))
       \<subseteq> set (toRemove (finalState (processAdapter env same bulks move)))
   \<and> (\<not> move \<longrightarrow> removeCalls (processAdapter env same bulks move) = [])"
proof -
  let ?st0 = "\<lparr>toRemove = [], moveLog = [], thrown = None\<rparr>"
  let ?st = "processBulks env bulks ?st0"
  show ?thesis
  proof (cases "\<not> same \<and> thrown ?st = None \<and> toRemove ?st \<noteq> [] \<and> move")
    case True
    obtain calls r where t: "removeBatches env (toRemove ?st) = (calls, r)"
      by (metis prod.collapse)
    have "processAdapter env same bulks move = \<lparr>removeCalls = calls, finalState = ?st\<lparr>thrown := r\<rparr>\<rparr>"
      using True t by (simp add: processAdapter_def Let_def)
    then show ?thesis using removeBatches_calls [OF t] True by simp
  next
    case False
    then have "removeCalls (processAdapter env same bulks move) = []"
      by (auto simp: processAdapter_def Let_def)
    then show ?thesis by (cases move) simp_all
  qed
qed

lemma processAdapter_keeps:
  assumes "targetBlobs env d = None" and "copyFails env d" and "statsById env (concat bulks)"
  shows "d \<notin> set (concat (removeCalls (processAdapter env same bulks move)))"
proof -
  let ?st0 = "\<lparr>toRemove = [], moveLog = [], thrown = None\<rparr>"
  have "d \<notin> set (toRemove (processBulks env bulks ?st0))"
    by (rule processBulks_keeps [OF assms]) simp
  moreover have "toRemove (finalState (processAdapter env same bulks move)) = []
      \<or> toRemove (finalState (processAdapter env same bulks move))
          = toRemove (processBulks env bulks ?st0)"
    by (auto simp: processAdapter_def Let_def split: prod.splits)
  ultimately have "d \<notin> set (toRemove (finalState (processAdapter env same bulks move)))"
    by auto
  then show ?thesis using processAdapter_removals [of env same bulks move] by blast
qed

text \<open>
  Claim C6. In a run of \<open>processAdapter\<close> over the listing of a source provider, a blob
  that is not on the target and whose copy fails in each of the five runs is logged as
  failed, is not appended to the deletion queue, and lets no error escape, so that the
  loop goes on with the remaining blobs; the calls that delete from the source carry
  ids of the queue only, at least one and at most 500 ids each, and none is made unless
  the move flag is set; hence the id of such a blob is in no deletion call and its bytes
  stay on the source.
\<close>

theorem moveFiles_failure_isolated:
  "(targetBlobs env d = None \<and> sourceStat env d = Inr (Some sb) \<and> copyFails env (blobId sb)
      \<and> thrown st = None \<longrightarrow>
        FailedToProcess d \<in> set (moveLog (processBlob env d st))
        \<and> toRemove (processBlob env d st) = toRemove st
        \<and> thrown (processBlob env d st) = None
        \<and> processBulk env (d # rest) st = processBulk env rest (processBlob env d st))
   \<and> list_all (\<lambda>p. p \<noteq> [] \<and> length p \<le> 500) (removeCalls (processAdapter env same bulks move))
   \<and> set (concat (removeCalls (processAdapter env same bulks move)))
       \<subseteq> set (toRemove (finalState (processAdapter env same bulks move)))
   \<and> (\<not> move \<longrightarrow> removeCalls (processAdapter env same bulks move) = [])
   \<and> (targetBlobs env d = None \<and> copyFails env d \<and> statsById env (concat bulks) \<longrightarrow>
        d \<notin> set (concat (removeCalls (processAdapter env same bulks move))))"
proof (intro conjI impI)
  assume a: "targetBlobs env d = None \<and> sourceStat env d = Inr (Some sb)
      \<and> copyFails env (blobId sb) \<and> thrown st = None"
  then have t: "targetBlobs env d = None" and s: "sourceStat env d = Inr (Some sb)"
    and c: "copyFails env (blobId sb)" and n: "thrown st = None" by simp_all
  show "FailedToProcess d \<in> set (moveLog (processBlob env d st))"
    by (rule processBlob_failed(3) [OF t s c])
  show "toRemove (processBlob env d st) = toRemove st"
    by (rule processBlob_failed(1) [OF t s c])
  show th: "thrown (processBlob env d st) = None"
    using processBlob_failed(2) [OF t s c, of st] n by simp
  show "processBulk env (d # rest) st = processBulk env rest (processBlob env d st)"
    using th by (simp add: Let_def)
next
  show "list_all (\<lambda>p. p \<noteq> [] \<and> length p \<le> 500) (removeCalls (processAdapter env same bulks move))"
    using processAdapter_removals [of env same bulks move] by (rule conjunct1)
  show "set (concat (removeCalls (processAdapter env same bulks move)))
       \<subseteq> set (toRemove (finalState (processAdapter env same bulks move)))"
    using processAdapter_removals [of env same bulks move] by blast
next
  assume "\<not> move"
  then show "removeCalls (processAdapter env same bulks move) = []"
    using processAdapter_removals [of env same bulks move] by blast
next
  assume "targetBlobs env d = None \<and> copyFails env d \<and> statsById env (concat bulks)"
  then show "d \<notin> set (concat (removeCalls (processAdapter env same bulks move)))"
    using processAdapter_keeps [of env d bulks same move] by blast
qed

lemma exMove_hyps:
  "targetBlobs exMoveEnv ''b2'' = None"
  "sourceStat exMoveEnv ''b2'' = Inr (Some \<lparr>blobId = ''b2'', provider = ''old'', blobSize = 10\<rparr>)"
  "copyFails exMoveEnv ''b2''"
  "statsById exMoveEnv (concat [[''b1'', ''b2''], [''b3'']])"
  by (simp_all add: exMoveEnv_def copyFails_def statsById_def)

lemma exMove_run:
  "removeCalls (processAdapter exMoveEnv False [[''b1'', ''b2''], [''b3'']] True) = [[''b1'', ''b3'']]"
  by (simp add: processAdapter_def processBlob_def exMoveEnv_def Let_def eval_nat_numeral
      removeBatches.simps)

theorem moveFiles_failure_isolated_witness:
  "FailedToProcess ''b2''
     \<in> set (moveLog (processBlob exMoveEnv ''b2'' \<lparr>toRemove = [''b1''], moveLog = [], thrown = None\<rparr>))
   \<and> toRemove (processBlob exMoveEnv ''b2'' \<lparr>toRemove = [''b1''], moveLog = [], thrown = None\<rparr>)
       = [''b1'']
   \<and> ''b2'' \<notin> set (concat (removeCalls (processAdapter exMoveEnv False [[''b1'', ''b2''], [''b3'']] True)))
   \<and> removeCalls (processAdapter exMoveEnv False [[''b1'', ''b2''], [''b3'']] True) = [[''b1'', ''b3'']]
   \<and> removeCalls (processAdapter exMoveEnv False [[''b1'', ''b2''], [''b3'']] False) = []"
proof -
  note T = moveFiles_failure_isolated [of exMoveEnv "''b2''"
      "\<lparr>blobId = ''b2'', provider = ''old'', blobSize = 10\<rparr>"
      "\<lparr>toRemove = [''b1''], moveLog = [], thrown = None\<rparr>" "[]" False
      "[[''b1'', ''b2''], [''b3'']]"]
  have b: "blobId \<lparr>blobId = ''b2'', provider = ''old'', blobSize = 10\<rparr> = ''b2''"
    and n: "thrown \<lparr>toRemove = [''b1''], moveLog = [], thrown = None\<rparr> = None"
    and t: "toRemove \<lparr>toRemove = [''b1''], moveLog = [], thrown = None\<rparr> = [''b1'']"
    by simp_all
  from T [of True] exMove_hyps b n t
  have 1: "FailedToProcess ''b2''
     \<in> set (moveLog (processBlob exMoveEnv ''b2'' \<lparr>toRemove = [''b1''], moveLog = [], thrown = None\<rparr>))"
    and 2: "toRemove (processBlob exMoveEnv ''b2'' \<lparr>toRemove = [''b1''], moveLog = [], thrown = None\<rparr>)
       = [''b1'']"
    and 3: "''b2'' \<notin> set (concat (removeCalls (processAdapter exMoveEnv False [[''b1'', ''b2''], [''b3'']] True)))"
    by simp_all
  from T [of False]
  have 4: "removeCalls (processAdapter exMoveEnv False [[''b1'', ''b2''], [''b3'']] False) = []"
    by simp
  show ?thesis using 1 2 3 4 exMove_run by simp
qed

section \<open>Backup idempotence\<close>










end
